theory Spec2Isabelle
  imports Main "HOL-Library.Word" "HOL-Library.Log_Nat"
begin

section \<open>The generic cell rate algorithm of package gcra\<close>

text \<open>
  The package is two layers: the raw engine (\<open>GenerateRaw\<close>, \<open>ComputeRaw\<close>, \<open>roundDiv\<close>)
  on \<open>int64\<close>, and the typed functions \<open>Generate\<close> and \<open>Compute\<close> on \<open>time.Time\<close>,
  \<open>Bucket\<close>, \<open>Options\<close> and \<open>Result\<close>.

  Go's \<open>int64\<close> is a 64-bit two's complement integer whose \<open>+\<close>, \<open>-\<close> and \<open>*\<close> wrap
  around: it is \<open>64 word\<close>, compared with the signed orders \<open>\<le>s\<close> and \<open><s\<close>.
\<close>

type_synonym int64 = "64 word"

subsection \<open>float64, as far as roundDiv uses it\<close>

text \<open>
  \<open>roundDiv\<close> converts both operands to \<open>float64\<close>, divides, rounds with \<open>math.Round\<close>
  and converts back. A finite \<open>float64\<close> is modelled by the rational number it denotes
  (both zeros by \<open>0\<close>: the divisor is the conversion of an integer, so it is never the
  negative zero, and a zero quotient converts to the integer 0 whatever its sign).

  \<open>rnd53\<close> rounds a rational to the nearest number with a 53-bit significand, ties to
  the even significand, with no bound on the exponent. That is IEEE 754 binary64
  rounding wherever the result is a normal number. The operands here are conversions of
  64-bit integers (magnitude at most \<open>2 ^ 63\<close>, and at least 1 unless 0), and a quotient
  of two of them with a nonzero divisor is 0 or has magnitude between \<open>2 ^ - 63\<close> and
  \<open>2 ^ 63\<close>: always in the normal range.
\<close>

datatype float64 = Finite rat | PosInf | NegInf | NaN

definition round_even :: "rat \<Rightarrow> int" where
  "round_even y = (let f = \<lfloor>y\<rfloor>; r = y - of_int f in
      if r < 1 / 2 then f else if 1 / 2 < r then f + 1 else if even f then f else f + 1)"

text \<open>\<open>ilog2 x\<close> is the binary exponent of a positive rational: \<open>2 ^ e \<le> x < 2 ^ (e + 1)\<close>.\<close>

definition ilog2 :: "rat \<Rightarrow> int" where
  "ilog2 x = (case quotient_of x of (p, q) \<Rightarrow>
     let d = bitlen p - bitlen q in if 2 powi d \<le> x then d else d - 1)"

definition rnd53 :: "rat \<Rightarrow> rat" where
  "rnd53 x = (if x = 0 then 0 else
     let u = 2 powi (ilog2 \<bar>x\<bar> - 52) in of_int (round_even (x / u)) * u)"

text \<open>\<open>float64(a)\<close> for an \<open>int64\<close>: always finite.\<close>

definition float64_of_int64 :: "int64 \<Rightarrow> rat" where
  "float64_of_int64 a = rnd53 (of_int (sint a))"

text \<open>
  The quotient of two finite values. Division by zero does not panic on \<open>float64\<close>: it
  gives NaN for \<open>0 / 0\<close> and an infinity otherwise.
\<close>

definition float64_div :: "rat \<Rightarrow> rat \<Rightarrow> float64" where
  "float64_div x y =
     (if y = 0 then (if x = 0 then NaN else if 0 < x then PosInf else NegInf)
      else Finite (rnd53 (x / y)))"

text \<open>\<open>math.Round\<close>: the nearest integer, halves away from zero; NaN and the infinities
  are returned as they are.\<close>

fun math_Round :: "float64 \<Rightarrow> float64" where
  "math_Round (Finite x) =
     Finite (if 0 \<le> x then of_int \<lfloor>x + 1 / 2\<rfloor> else - of_int \<lfloor>- x + 1 / 2\<rfloor>)"
| "math_Round v = v"

text \<open>
  \<open>int64(f)\<close>: the fraction is discarded. Where the truncated value is not an \<open>int64\<close>,
  and for NaN and the infinities, the conversion still succeeds, and the language
  leaves its value to the implementation. That choice is the parameter \<open>impl\<close>, a
  function from the value converted to the \<open>int64\<close> the platform produces; every
  function of the package takes it, and a theorem with a free \<open>impl\<close> holds on every
  platform. On amd64 the conversion instruction returns \<open>- 2 ^ 63\<close> for all such values,
  which is \<open>amd64\<close>.
\<close>

type_synonym conversion = "float64 \<Rightarrow> int64"

fun int64_of_float64 :: "conversion \<Rightarrow> float64 \<Rightarrow> int64" where
  "int64_of_float64 impl (Finite x) =
     (let t = (if 0 \<le> x then \<lfloor>x\<rfloor> else - \<lfloor>- x\<rfloor>) in
      if - (2 ^ 63) \<le> t \<and> t < 2 ^ 63 then word_of_int t else impl (Finite x))"
| "int64_of_float64 impl v = impl v"

definition amd64 :: conversion where
  "amd64 f = - 9223372036854775808"

definition roundDiv :: "conversion \<Rightarrow> int64 \<Rightarrow> int64 \<Rightarrow> int64" where
  "roundDiv impl a b =
     int64_of_float64 impl
       (math_Round (float64_div (float64_of_int64 a) (float64_of_int64 b)))"

subsection \<open>The raw engine\<close>

definition GenerateRaw ::
  "conversion \<Rightarrow> int64 \<Rightarrow> int64 \<Rightarrow> int64 \<Rightarrow> int64 \<Rightarrow> int64 \<Rightarrow> int64" where
  "GenerateRaw impl now count burst rate period =
     (let emissionInterval = roundDiv impl period rate in
      now + emissionInterval * (burst - count))"

text \<open>The result is (newTAT, limited, remaining, retryIn, resetIn).\<close>

definition ComputeRaw ::
  "conversion \<Rightarrow> int64 \<Rightarrow> int64 \<Rightarrow> int64 \<Rightarrow> int64 \<Rightarrow> int64 \<Rightarrow> int64 \<Rightarrow>
   int64 \<times> bool \<times> int64 \<times> int64 \<times> int64" where
  "ComputeRaw impl tat0 now burst rate period cost =
     (let emissionInterval = roundDiv impl period rate;
          increment = emissionInterval * cost;
          burstOffset = emissionInterval * burst;
          tat = (if tat0 <s now then now else tat0);
          newTAT = tat + increment;
          allowAt = newTAT - burstOffset;
          diff = now - allowAt;
          remaining = roundDiv impl diff emissionInterval
      in if remaining <s 0 then
           (let remaining' = roundDiv impl (now - (tat - burstOffset)) emissionInterval
            in (tat, True, remaining', diff * (- 1), tat - now))
         else if remaining = 0 \<and> increment \<le>s 0 then (tat, True, 0, 0, tat - now)
         else (newTAT, False, remaining, 0, newTAT - now))"

subsection \<open>The typed layer\<close>

text \<open>
  A \<open>time.Time\<close> enters the computation only through \<open>UnixNano()\<close>, and a \<open>Bucket\<close> is
  built by \<open>time.Unix(0, tat)\<close> and read back by \<open>UnixNano()\<close>, which returns \<open>tat\<close> for
  every \<open>int64\<close>. So \<open>now\<close> and the bucket are modelled by their \<open>UnixNano()\<close>, and a
  \<open>time.Duration\<close> is an \<open>int64\<close> of nanoseconds by definition. The zero \<open>Bucket{}\<close> is
  the zero \<open>time.Time\<close> (1 January of year 1), whose \<open>UnixNano()\<close> wraps around to the
  value below.
\<close>

type_synonym Bucket = int64
type_synonym Time = int64
type_synonym Duration = int64

definition Bucket_zero :: Bucket where
  "Bucket_zero = - 6795364578871345152"

definition Second :: Duration where
  "Second = 1000000000"

definition Millisecond :: Duration where
  "Millisecond = 1000000"

record Options =
  Burst :: int64
  Rate :: int64
  Period :: Duration

record Result =
  Limited :: bool
  Remaining :: int64
  RetryIn :: Duration
  ResetIn :: Duration

definition Result_zero :: Result where
  "Result_zero = \<lparr>Limited = False, Remaining = 0, RetryIn = 0, ResetIn = 0\<rparr>"

datatype error = ErrInvalidParameter | ErrCostHigherThanBurst

text \<open>Both functions return Go's tuple, the error last (\<open>None\<close> is \<open>nil\<close>).\<close>

definition Generate ::
  "conversion \<Rightarrow> Time \<Rightarrow> int64 \<Rightarrow> Options \<Rightarrow> Bucket \<times> error option" where
  "Generate impl now count opts =
     (if count <s 0 \<or> Burst opts \<le>s 0 \<or> Rate opts \<le>s 0 \<or> Period opts \<le>s 0
      then (Bucket_zero, Some ErrInvalidParameter)
      else if Burst opts <s count then (Bucket_zero, Some ErrCostHigherThanBurst)
      else (GenerateRaw impl now count (Burst opts) (Rate opts) (Period opts), None))"

definition Compute ::
  "conversion \<Rightarrow> Time \<Rightarrow> Bucket \<Rightarrow> int64 \<Rightarrow> Options \<Rightarrow> Bucket \<times> Result \<times> error option" where
  "Compute impl now bucket cost opts =
     (if cost <s 0 \<or> Burst opts \<le>s 0 \<or> Rate opts \<le>s 0 \<or> Period opts \<le>s 0
      then (bucket, Result_zero, Some ErrInvalidParameter)
      else if Burst opts <s cost then (bucket, Result_zero, Some ErrCostHigherThanBurst)
      else (case ComputeRaw impl bucket now (Burst opts) (Rate opts) (Period opts) cost of
              (newTAT, limited, remaining, retryIn, resetIn) \<Rightarrow>
                (newTAT,
                 \<lparr>Limited = limited, Remaining = remaining,
                  RetryIn = retryIn, ResetIn = resetIn\<rparr>,
                 None)))"

subsection \<open>The rounding the specification asks for\<close>

text \<open>
  The specification describes the emission interval as \<open>round(period / rate)\<close>, the
  nearest integer with ties away from zero. \<open>exact_round_div\<close> is that rounding on the
  exact rational quotient; it is what \<open>roundDiv\<close> is compared with.
\<close>

definition exact_round_div :: "int \<Rightarrow> int \<Rightarrow> int" where
  "exact_round_div a b =
     (let q = (of_int a / of_int b :: rat) in
      if 0 \<le> q then \<lfloor>q + 1 / 2\<rfloor> else - \<lfloor>- q + 1 / 2\<rfloor>)"

subsection \<open>The options of the package's example and of TestGenerate\<close>

definition Example_opts :: Options where
  "Example_opts = \<lparr>Burst = 50, Rate = 10, Period = Second\<rparr>"

definition TestGenerate_opts :: Options where
  "TestGenerate_opts = \<lparr>Burst = 100, Rate = 10, Period = Second\<rparr>"

subsection \<open>Chains of allowed calls\<close>

text \<open>
  \<open>allowed_chain impl opts b calls\<close> runs \<open>Compute\<close> for each (now, cost) of \<open>calls\<close>,
  each on the bucket the previous call returned, and returns the buckets stored after
  each call; it is \<open>None\<close> as soon as a call is denied or returns an error.
  \<open>chain_in_range\<close> says that along such a chain no new TAT
  \<open>tat + emissionInterval * cost\<close> reaches \<open>2 ^ 63\<close>.
\<close>

fun allowed_chain ::
  "conversion \<Rightarrow> Options \<Rightarrow> Bucket \<Rightarrow> (Time \<times> int64) list \<Rightarrow> Bucket list option" where
  "allowed_chain impl opts b [] = Some []"
| "allowed_chain impl opts b ((now, cost) # cs) =
     (case Compute impl now b cost opts of
        (b', res, None) \<Rightarrow>
          if Limited res then None
          else (case allowed_chain impl opts b' cs of
                  None \<Rightarrow> None
                | Some bs \<Rightarrow> Some (b' # bs))
      | (b', res, Some e) \<Rightarrow> None)"

fun chain_in_range :: "int64 \<Rightarrow> Bucket \<Rightarrow> (Time \<times> int64) list \<Rightarrow> bool" where
  "chain_in_range ei b [] = True"
| "chain_in_range ei b ((now, cost) # cs) =
     (let tat = (if b <s now then now else b) in
      sint tat + sint ei * sint cost < 2 ^ 63 \<and> chain_in_range ei (tat + ei * cost) cs)"

section \<open>Properties of the float64 model\<close>

lemma ilog2_bounds:
  assumes "0 < x"
  shows "2 powi (ilog2 x) \<le> x" and "x < 2 powi (ilog2 x + 1)"
proof -
  obtain p q where pq: "quotient_of x = (p, q)" by (cases "quotient_of x")
  have q0: "0 < q" using pq quotient_of_denom_pos by blast
  have xpq: "x = of_int p / of_int q" using pq quotient_of_div by blast
  have p0: "0 < p" using assms q0 xpq by (simp add: zero_less_divide_iff)
  define d where "d = bitlen p - bitlen q"
  have bp: "2 ^ nat (bitlen p - 1) \<le> p" "p < 2 ^ nat (bitlen p)"
    using bitlen_bounds [OF p0] by auto
  have bq: "2 ^ nat (bitlen q - 1) \<le> q" "q < 2 ^ nat (bitlen q)"
    using bitlen_bounds [OF q0] by auto
  have blp: "1 \<le> bitlen p" using p0 by (auto simp: bitlen_alt_def)
  have blq: "1 \<le> bitlen q" using q0 by (auto simp: bitlen_alt_def)
  have P1: "(2::rat) powi (bitlen p - 1) \<le> of_int p"
  proof -
    have "(of_int (2 ^ nat (bitlen p - 1)) :: rat) \<le> of_int p" using bp(1) by (simp only: of_int_le_iff)
    then show ?thesis using blp by (simp add: power_int_def)
  qed
  have P2: "(of_int p :: rat) < 2 powi (bitlen p)"
  proof -
    have "(of_int p :: rat) < of_int (2 ^ nat (bitlen p))" using bp(2) by (simp only: of_int_less_iff)
    then show ?thesis using blp by (simp add: power_int_def)
  qed
  have Q1: "(2::rat) powi (bitlen q - 1) \<le> of_int q"
  proof -
    have "(of_int (2 ^ nat (bitlen q - 1)) :: rat) \<le> of_int q" using bq(1) by (simp only: of_int_le_iff)
    then show ?thesis using blq by (simp add: power_int_def)
  qed
  have Q2: "(of_int q :: rat) < 2 powi (bitlen q)"
  proof -
    have "(of_int q :: rat) < of_int (2 ^ nat (bitlen q))" using bq(2) by (simp only: of_int_less_iff)
    then show ?thesis using blq by (simp add: power_int_def)
  qed
  have qr: "(0::rat) < of_int q" using q0 by simp
  have lo: "(2::rat) powi (d - 1) < x"
  proof -
    have "(2::rat) powi (d - 1) * of_int q < 2 powi (d - 1) * 2 powi (bitlen q)"
      using Q2 by (simp add: mult_strict_left_mono)
    also have "\<dots> = 2 powi (bitlen p - 1)"
      by (simp add: d_def power_int_add [symmetric])
    also have "\<dots> \<le> of_int p" by (rule P1)
    finally show ?thesis using qr by (simp add: xpq pos_less_divide_eq)
  qed
  have hi: "x < (2::rat) powi (d + 1)"
  proof -
    have "of_int p < (2::rat) powi (bitlen p)" by (rule P2)
    also have "\<dots> = 2 powi (d + 1) * 2 powi (bitlen q - 1)"
      by (simp add: d_def power_int_add [symmetric])
    also have "\<dots> \<le> 2 powi (d + 1) * of_int q"
      using Q1 by (simp add: mult_left_mono)
    finally show ?thesis using qr by (simp add: xpq pos_divide_less_eq)
  qed
  have il: "ilog2 x = (if 2 powi d \<le> x then d else d - 1)"
    by (simp add: ilog2_def pq d_def Let_def)
  show "2 powi (ilog2 x) \<le> x" using lo by (simp add: il)
  show "x < 2 powi (ilog2 x + 1)" using hi by (auto simp: il not_le)
qed

lemma round_even_err: "\<bar>of_int (round_even y) - y\<bar> \<le> 1 / 2"
proof -
  have "of_int \<lfloor>y\<rfloor> \<le> y" "y < of_int \<lfloor>y\<rfloor> + 1" by linarith+
  then show ?thesis by (auto simp: round_even_def Let_def)
qed

lemma round_even_of_int: "round_even (of_int k) = k"
  by (simp add: round_even_def)

lemma round_even_nonneg: "0 \<le> y \<Longrightarrow> 0 \<le> round_even y"
  by (auto simp: round_even_def Let_def)

lemma round_even_nonpos: "y \<le> 0 \<Longrightarrow> round_even y \<le> 0"
proof -
  assume y: "y \<le> 0"
  have fl: "of_int \<lfloor>y\<rfloor> \<le> y" "y < of_int \<lfloor>y\<rfloor> + 1" by linarith+
  have f0: "\<lfloor>y\<rfloor> \<le> 0" using y by linarith
  show ?thesis
  proof (cases "\<lfloor>y\<rfloor> = 0")
    case True
    then have "y = 0" using y fl by simp
    then show ?thesis by (simp add: round_even_def)
  next
    case False
    then have "\<lfloor>y\<rfloor> + 1 \<le> 0" using f0 by linarith
    then show ?thesis using f0 by (auto simp: round_even_def Let_def)
  qed
qed

lemma rnd53_err: "\<bar>rnd53 x - x\<bar> \<le> \<bar>x\<bar> / 2 ^ 53"
proof (cases "x = 0")
  case True
  then show ?thesis by (simp add: rnd53_def)
next
  case False
  define e where "e = ilog2 \<bar>x\<bar>"
  define u :: rat where "u = 2 powi (e - 52)"
  have u0: "0 < u" by (simp add: u_def)
  have ax: "0 < \<bar>x\<bar>" using False by simp
  have le: "2 powi e \<le> \<bar>x\<bar>" using ilog2_bounds(1) [OF ax] by (simp add: e_def)
  have r: "rnd53 x = of_int (round_even (x / u)) * u"
    using False by (simp add: rnd53_def u_def e_def Let_def)
  have "rnd53 x - x = (of_int (round_even (x / u)) - x / u) * u"
    using u0 by (simp add: r algebra_simps)
  then have "\<bar>rnd53 x - x\<bar> = \<bar>of_int (round_even (x / u)) - x / u\<bar> * u"
    using u0 by (simp add: abs_mult)
  also have "\<dots> \<le> (1 / 2) * u"
    using round_even_err [of "x / u"] u0 by (simp add: mult_right_mono)
  also have "\<dots> = 2 powi e / 2 ^ 53"
  proof -
    have "(2::rat) powi (e - 52) = 2 powi e / 2 ^ 52"
      by (simp add: power_int_diff)
    then show ?thesis by (simp add: u_def)
  qed
  also have "\<dots> \<le> \<bar>x\<bar> / 2 ^ 53" using le by (simp add: divide_right_mono)
  finally show ?thesis .
qed

lemma rnd53_nonneg: "0 \<le> x \<Longrightarrow> 0 \<le> rnd53 x"
  by (auto simp: rnd53_def Let_def intro!: mult_nonneg_nonneg round_even_nonneg)

lemma rnd53_nonpos: "x \<le> 0 \<Longrightarrow> rnd53 x \<le> 0"
proof -
  assume x: "x \<le> 0"
  show ?thesis
  proof (cases "x = 0")
    case True
    then show ?thesis by (simp add: rnd53_def)
  next
    case False
    define u :: rat where "u = 2 powi (ilog2 \<bar>x\<bar> - 52)"
    have u0: "0 < u" by (simp add: u_def)
    have "x / u \<le> 0" using x u0 by (simp add: divide_le_0_iff)
    then have "round_even (x / u) \<le> 0" by (rule round_even_nonpos)
    then have "(of_int (round_even (x / u)) :: rat) \<le> 0" by simp
    then have "of_int (round_even (x / u)) * u \<le> 0" using u0 by (simp add: mult_le_0_iff)
    then show ?thesis using False by (simp add: rnd53_def u_def Let_def)
  qed
qed

lemma rnd53_exact:
  assumes k: "\<bar>k\<bar> < 2 ^ 53"
  shows "rnd53 (of_int k * 2 powi s) = of_int k * 2 powi s"
proof (cases "k = 0")
  case True
  then show ?thesis by (simp add: rnd53_def)
next
  case False
  define x :: rat where "x = of_int k * 2 powi s"
  define e where "e = ilog2 \<bar>x\<bar>"
  define u :: rat where "u = 2 powi (e - 52)"
  have x0: "x \<noteq> 0" using False by (simp add: x_def)
  have ax: "0 < \<bar>x\<bar>" using x0 by simp
  have le: "2 powi e \<le> \<bar>x\<bar>" using ilog2_bounds(1) [OF ax] by (simp add: e_def)
  have "\<bar>x\<bar> = of_int \<bar>k\<bar> * 2 powi s" by (simp add: x_def abs_mult)
  also have "\<dots> < of_int (2 ^ 53) * 2 powi s"
    using k by (intro mult_strict_right_mono) (simp_all only: of_int_less_iff zero_less_power_int zero_less_numeral)
  also have "\<dots> = 2 powi (53 + s)" by (simp add: power_int_add)
  finally have "(2::rat) powi e < 2 powi (53 + s)" using le by simp
  then have es: "e < 53 + s"
    using power_int_increasing [of "53 + s" e "2::rat"] by (cases "e < 53 + s") auto
  define m where "m = nat (s - (e - 52))"
  have sm: "s = (e - 52) + int m" using es by (simp add: m_def)
  have "x / u = of_int k * (2 powi s / 2 powi (e - 52))" by (simp add: x_def u_def)
  also have "2 powi s / 2 powi (e - 52) = (2::rat) ^ m"
    by (subst sm) (simp add: power_int_add)
  finally have xu: "x / u = of_int (k * 2 ^ m)" by simp
  have u0: "u \<noteq> 0" by (simp add: u_def)
  have "of_int (round_even (x / u)) * u = (x / u) * u"
    by (simp only: xu round_even_of_int)
  also have "\<dots> = x" using u0 by simp
  finally have "of_int (round_even (x / u)) * u = x" .
  then show ?thesis using x0 by (simp add: rnd53_def x_def [symmetric] u_def e_def Let_def)
qed

lemma rnd53_of_int: "\<bar>k\<bar> < 2 ^ 53 \<Longrightarrow> rnd53 (of_int k) = of_int k"
  using rnd53_exact [of k 0] by simp

lemma rnd53_half: "\<bar>k\<bar> < 2 ^ 53 \<Longrightarrow> rnd53 (of_int k / 2) = of_int k / 2"
  using rnd53_exact [of k "-1"] by (simp add: power_int_minus)

lemma round_stable:
  fixes A B :: int and p' :: rat
  assumes B: "0 < B"
    and close: "\<bar>p' - of_int A / of_int B\<bar> < 1 / (2 * of_int B)"
    and half: "\<And>n. (of_int A / of_int B :: rat) = of_int n - 1 / 2 \<Longrightarrow> p' = of_int A / of_int B"
  shows "\<lfloor>p' + 1 / 2\<rfloor> = \<lfloor>(of_int A / of_int B :: rat) + 1 / 2\<rfloor>"
proof -
  define p :: rat where "p = of_int A / of_int B"
  define n where "n = \<lfloor>p + 1 / 2\<rfloor>"
  define z where "z = 2 * A + B - 2 * B * n"
  have b0: "(0::rat) < of_int B" using B by simp
  have n1: "of_int n \<le> p + 1 / 2" and n2: "p + 1 / 2 < of_int n + 1"
    unfolding n_def by linarith+
  have pz: "p + 1 / 2 - of_int n = of_int z / (2 * of_int B)"
    using b0 by (simp add: p_def z_def field_simps)
  have "of_int z / (2 * of_int B) < (1::rat)" using n2 pz by linarith
  then have "(of_int z :: rat) < of_int (2 * B)" using b0 by (simp add: pos_divide_less_eq)
  then have z2: "z \<le> 2 * B - 1" by (simp only: of_int_less_iff)
  have "(0::rat) \<le> of_int z / (2 * of_int B)" using n1 pz by linarith
  then have "(0::rat) \<le> of_int z" using b0 by (simp add: zero_le_divide_iff)
  then have z1: "0 \<le> z" by simp
  have cl: "p - 1 / (2 * of_int B) < p'" "p' < p + 1 / (2 * of_int B)"
    using close unfolding p_def by linarith+
  have up: "p' + 1 / 2 < of_int n + 1"
  proof -
    have "(of_int z :: rat) \<le> of_int (2 * B - 1)" using z2 by (simp only: of_int_le_iff)
    then have "of_int z / (2 * of_int B) \<le> (of_int (2 * B - 1) :: rat) / (2 * of_int B)"
      using b0 by (simp add: divide_right_mono)
    also have "\<dots> = 1 - 1 / (2 * of_int B)" using b0 by (simp add: field_simps)
    finally have "p + 1 / 2 - of_int n \<le> 1 - 1 / (2 * of_int B)" using pz by simp
    then show ?thesis using cl(2) by linarith
  qed
  have lo: "of_int n \<le> p' + 1 / 2"
  proof (cases "z = 0")
    case True
    then have "p = of_int n - 1 / 2" using pz by simp
    then have "p' = p" using half [of n] by (simp add: p_def)
    then show ?thesis using n1 by simp
  next
    case False
    then have "1 \<le> z" using z1 by linarith
    then have "(of_int 1 :: rat) \<le> of_int z" by (simp only: of_int_le_iff)
    then have "(1::rat) / (2 * of_int B) \<le> of_int z / (2 * of_int B)"
      using b0 by (simp add: divide_right_mono)
    then have "1 / (2 * of_int B) \<le> p + 1 / 2 - of_int n" using pz by simp
    then show ?thesis using cl(1) by linarith
  qed
  have "\<lfloor>p' + 1 / 2\<rfloor> = n" using lo up by linarith
  then show ?thesis by (simp add: n_def p_def)
qed

lemma rnd53_round_stable:
  fixes A B :: int
  assumes A: "\<bar>A\<bar> < 2 ^ 52" and B: "0 < B"
  shows "\<lfloor>\<bar>rnd53 (of_int A / of_int B)\<bar> + 1 / 2\<rfloor> = \<lfloor>\<bar>of_int A / of_int B :: rat\<bar> + 1 / 2\<rfloor>"
proof -
  define q :: rat where "q = of_int A / of_int B"
  define q' where "q' = rnd53 q"
  have b0: "(0::rat) < of_int B" using B by simp
  have b1: "(1::rat) \<le> of_int B" using B by (simp add: int_one_le_iff_zero_less)
  have aq: "\<bar>q\<bar> = of_int \<bar>A\<bar> / of_int B" using b0 by (simp add: q_def)
  have aA: "(of_int \<bar>A\<bar> :: rat) < 2 ^ 52"
  proof -
    have "(of_int \<bar>A\<bar> :: rat) < of_int (2 ^ 52)" using A by (simp only: of_int_less_iff)
    then show ?thesis by simp
  qed
  have qA: "\<bar>q\<bar> \<le> of_int \<bar>A\<bar>"
  proof -
    have "of_int \<bar>A\<bar> / of_int B \<le> (of_int \<bar>A\<bar> :: rat) / 1"
      using b1 by (intro divide_left_mono) simp_all
    then show ?thesis by (simp add: aq)
  qed
  have err: "\<bar>q' - q\<bar> < 1 / (2 * of_int B)"
  proof -
    have "\<bar>q' - q\<bar> \<le> \<bar>q\<bar> / 2 ^ 53" unfolding q'_def by (rule rnd53_err)
    also have "\<dots> = of_int \<bar>A\<bar> / (of_int B * 2 ^ 53)" by (simp add: aq)
    also have "\<dots> < 2 ^ 52 / (of_int B * 2 ^ 53)"
      using aA b0 by (intro divide_strict_right_mono) simp_all
    also have "\<dots> = 1 / (2 * of_int B)" by simp
    finally show ?thesis .
  qed
  have halfq: "q' = q" if "\<bar>q\<bar> = of_int n - 1 / 2" for n :: int
  proof -
    have "of_int (2 * n - 1) / 2 = \<bar>q\<bar>" using that by simp
    define k where "k = (if 0 \<le> q then 2 * n - 1 else - (2 * n - 1))"
    have qk: "q = of_int k / 2" using that by (auto simp: k_def abs_if split: if_splits)
    have "\<bar>(of_int k :: rat)\<bar> = 2 * \<bar>q\<bar>" by (simp add: qk)
    also have "\<dots> < 2 * 2 ^ 52" using qA aA by linarith
    finally have "(of_int \<bar>k\<bar> :: rat) < of_int (2 ^ 53)" by simp
    then have "\<bar>k\<bar> < 2 ^ 53" by (simp only: of_int_less_iff)
    then show ?thesis unfolding q'_def qk by (rule rnd53_half)
  qed
  have "\<lfloor>\<bar>q'\<bar> + 1 / 2\<rfloor> = \<lfloor>\<bar>q\<bar> + 1 / 2\<rfloor>"
  proof (cases "0 \<le> A")
    case True
    then have q0: "0 \<le> q" using b0 by (simp add: q_def)
    then have q'0: "0 \<le> q'" unfolding q'_def by (rule rnd53_nonneg)
    have "\<lfloor>q' + 1 / 2\<rfloor> = \<lfloor>(of_int A / of_int B :: rat) + 1 / 2\<rfloor>"
    proof (rule round_stable [OF B])
      show "\<bar>q' - of_int A / of_int B\<bar> < 1 / (2 * of_int B)" using err by (simp add: q_def)
      show "q' = of_int A / of_int B" if "(of_int A / of_int B :: rat) = of_int n - 1 / 2" for n :: int
      proof -
        have "\<bar>q\<bar> = of_int n - 1 / 2" using that q0 by (simp add: q_def)
        then have "q' = q" by (rule halfq)
        then show ?thesis by (simp add: q_def)
      qed
    qed
    then have "\<lfloor>q' + 1 / 2\<rfloor> = \<lfloor>q + 1 / 2\<rfloor>" by (simp only: q_def)
    then show ?thesis by (simp only: abs_of_nonneg [OF q0] abs_of_nonneg [OF q'0])
  next
    case False
    then have q0: "q \<le> 0" using b0 by (simp add: q_def divide_le_0_iff)
    then have q'0: "q' \<le> 0" unfolding q'_def by (rule rnd53_nonpos)
    have mq: "- q = of_int (- A) / of_int B" by (simp add: q_def)
    have "\<lfloor>- q' + 1 / 2\<rfloor> = \<lfloor>(of_int (- A) / of_int B :: rat) + 1 / 2\<rfloor>"
    proof (rule round_stable [OF B])
      show "\<bar>- q' - of_int (- A) / of_int B\<bar> < 1 / (2 * of_int B)"
        using err by (simp add: q_def abs_minus_commute)
      show "- q' = of_int (- A) / of_int B" if "(of_int (- A) / of_int B :: rat) = of_int n - 1 / 2" for n :: int
      proof -
        have "\<bar>q\<bar> = of_int n - 1 / 2" using that q0 mq by simp
        then have "q' = q" by (rule halfq)
        then show ?thesis by (simp add: mq)
      qed
    qed
    then have "\<lfloor>- q' + 1 / 2\<rfloor> = \<lfloor>- q + 1 / 2\<rfloor>" by (simp only: mq)
    then show ?thesis by (simp only: abs_of_nonpos [OF q0] abs_of_nonpos [OF q'0])
  qed
  then show ?thesis unfolding q'_def q_def .
qed

section \<open>roundDiv against exact rounding\<close>

lemma sint_word_of_int_64:
  "- (2 ^ 63) \<le> k \<Longrightarrow> k < 2 ^ 63 \<Longrightarrow> sint (word_of_int k :: int64) = k"
  by (simp add: sint_sbintrunc' signed_take_bit_int_eq_self)

lemma exact_round_div_abs:
  "exact_round_div A B =
     (if (0::rat) \<le> of_int A / of_int B then 1 else - 1) * \<lfloor>\<bar>of_int A / of_int B :: rat\<bar> + 1 / 2\<rfloor>"
proof -
  have "(if 0 \<le> q then \<lfloor>q + 1 / 2\<rfloor> else - \<lfloor>- q + 1 / 2\<rfloor>) =
        (if 0 \<le> q then 1 else - 1) * \<lfloor>\<bar>q\<bar> + 1 / 2\<rfloor>" for q :: rat
    by (simp add: abs_if)
  then show ?thesis unfolding exact_round_div_def Let_def .
qed

lemma exact_round_div_abs_le:
  assumes "0 < B"
  shows "\<bar>exact_round_div A B\<bar> \<le> \<bar>A\<bar>"
proof -
  define q :: rat where "q = of_int A / of_int B"
  have b1: "(1::rat) \<le> of_int B" using assms by (simp add: int_one_le_iff_zero_less)
  have "\<bar>q\<bar> = of_int \<bar>A\<bar> / of_int B" using assms by (simp add: q_def)
  also have "\<dots> \<le> of_int \<bar>A\<bar> / 1" using b1 by (intro divide_left_mono) simp_all
  finally have qA: "\<bar>q\<bar> \<le> of_int \<bar>A\<bar>" by simp
  have "of_int \<lfloor>\<bar>q\<bar> + 1 / 2\<rfloor> \<le> \<bar>q\<bar> + 1 / 2" by linarith
  then have "(of_int \<lfloor>\<bar>q\<bar> + 1 / 2\<rfloor> :: rat) < of_int \<bar>A\<bar> + 1" using qA by linarith
  also have "\<dots> = of_int (\<bar>A\<bar> + 1)" by simp
  finally have "\<lfloor>\<bar>q\<bar> + 1 / 2\<rfloor> < \<bar>A\<bar> + 1" by (simp only: of_int_less_iff)
  then have up: "\<lfloor>\<bar>q\<bar> + 1 / 2\<rfloor> \<le> \<bar>A\<bar>" by linarith
  have lo: "0 \<le> \<lfloor>\<bar>q\<bar> + 1 / 2\<rfloor>" by simp
  have "\<bar>exact_round_div A B\<bar> = \<lfloor>\<bar>q\<bar> + 1 / 2\<rfloor>"
    unfolding exact_round_div_abs q_def [symmetric] using lo by (simp add: abs_mult)
  then show ?thesis using up by simp
qed

lemma exact_round_div_nonneg: "0 \<le> A \<Longrightarrow> 0 < B \<Longrightarrow> 0 \<le> exact_round_div A B"
  by (simp add: exact_round_div_def Let_def)

lemma exact_round_div_nonpos: "A \<le> 0 \<Longrightarrow> 0 < B \<Longrightarrow> exact_round_div A B \<le> 0"
  by (auto simp: exact_round_div_def Let_def divide_le_0_iff zero_le_divide_iff)

lemma exact_round_div_mult: "0 < E \<Longrightarrow> exact_round_div (E * K) E = K"
proof -
  assume E: "0 < E"
  have q: "(of_int (E * K) / of_int E :: rat) = of_int K" using E by simp
  have f1: "\<lfloor>(of_int K :: rat) + 1 / 2\<rfloor> = K" by linarith
  have f2: "\<lfloor>- (of_int K :: rat) + 1 / 2\<rfloor> = - K" by linarith
  show ?thesis unfolding exact_round_div_def q Let_def using f1 f2 by simp
qed

lemma math_Round_rnd53:
  fixes A B :: int
  assumes A: "\<bar>A\<bar> < 2 ^ 52" and B: "0 < B"
  shows "math_Round (Finite (rnd53 (of_int A / of_int B))) = Finite (of_int (exact_round_div A B))"
proof -
  define q :: rat where "q = of_int A / of_int B"
  define q' where "q' = rnd53 q"
  have st: "\<lfloor>\<bar>q'\<bar> + 1 / 2\<rfloor> = \<lfloor>\<bar>q\<bar> + 1 / 2\<rfloor>"
    unfolding q'_def q_def by (rule rnd53_round_stable [OF A B])
  have "math_Round (Finite q') = Finite (of_int (exact_round_div A B))"
  proof (cases "0 \<le> q")
    case True
    then have q'0: "0 \<le> q'" unfolding q'_def by (rule rnd53_nonneg)
    show ?thesis using st True q'0 by (simp add: exact_round_div_def q_def [symmetric] Let_def)
  next
    case False
    then have "q \<le> 0" by simp
    then have q'0: "q' \<le> 0" unfolding q'_def by (rule rnd53_nonpos)
    show ?thesis
    proof (cases "q' = 0")
      case True
      have h: "\<lfloor>(1::rat) / 2\<rfloor> = 0" by (simp add: floor_eq_iff)
      then have "\<lfloor>\<bar>q\<bar> + 1 / 2\<rfloor> = 0" using st True by simp
      then show ?thesis using False True h
        by (simp add: exact_round_div_def q_def [symmetric] Let_def)
    next
      case F2: False
      then have "\<not> 0 \<le> q'" using q'0 by simp
      then show ?thesis using st False q'0
        by (simp add: exact_round_div_def q_def [symmetric] Let_def)
    qed
  qed
  then show ?thesis unfolding q'_def q_def .
qed

lemma rnd53_pos:
  assumes "0 < x"
  shows "0 < rnd53 x"
proof -
  have "\<bar>rnd53 x - x\<bar> \<le> \<bar>x\<bar> / 2 ^ 53" by (rule rnd53_err)
  then have e: "\<bar>rnd53 x - x\<bar> \<le> x / 2 ^ 53" using assms by simp
  have "x / 2 ^ 53 < x" using assms by simp
  then show ?thesis using e by linarith
qed

lemma rnd53_lower:
  assumes "0 \<le> x"
  shows "x * (1 - 1 / 2 ^ 53) \<le> rnd53 x"
proof -
  have "\<bar>rnd53 x - x\<bar> \<le> \<bar>x\<bar> / 2 ^ 53" by (rule rnd53_err)
  then have "x - x / 2 ^ 53 \<le> rnd53 x" using assms by linarith
  then show ?thesis by (simp add: algebra_simps)
qed

lemma rnd53_upper:
  assumes "0 \<le> x"
  shows "rnd53 x \<le> x * (1 + 1 / 2 ^ 53)"
proof -
  have "\<bar>rnd53 x - x\<bar> \<le> \<bar>x\<bar> / 2 ^ 53" by (rule rnd53_err)
  then have "rnd53 x \<le> x + x / 2 ^ 53" using assms by linarith
  then show ?thesis by (simp add: algebra_simps)
qed


section \<open>Signed 64-bit arithmetic without overflow\<close>

lemma word_of_int_sint_64: "(word_of_int (sint w) :: int64) = w"
  by simp

lemma sint_add_64:
  "- (2 ^ 63) \<le> sint a + sint b \<Longrightarrow> sint a + sint b < 2 ^ 63 \<Longrightarrow>
   sint (a + b :: int64) = sint a + sint b"
  by (simp add: sint_word_ariths signed_take_bit_int_eq_self)

lemma sint_diff_64:
  "- (2 ^ 63) \<le> sint a - sint b \<Longrightarrow> sint a - sint b < 2 ^ 63 \<Longrightarrow>
   sint (a - b :: int64) = sint a - sint b"
  by (simp add: sint_word_ariths signed_take_bit_int_eq_self)

lemma sint_mult_64:
  "- (2 ^ 63) \<le> sint a * sint b \<Longrightarrow> sint a * sint b < 2 ^ 63 \<Longrightarrow>
   sint (a * b :: int64) = sint a * sint b"
  by (simp add: sint_word_ariths signed_take_bit_int_eq_self)

lemma sint_bounds_64: "- (2 ^ 63) \<le> sint (w :: int64)" "sint (w :: int64) < 2 ^ 63"
  using sint_ge [of w] sint_lt [of w] by simp_all

lemma word_eq_of_sint: "sint (w :: int64) = k \<Longrightarrow> w = word_of_int k"
  by auto

lemma sless_antisym_64: "\<not> a <s b \<Longrightarrow> a \<le>s b \<Longrightarrow> a = (b :: int64)"
  by (simp add: word_sless_alt word_sle_eq signed_word_eqI)

lemma sint_mult_nonneg_64:
  assumes "0 \<le> sint a" and "0 \<le> sint b" and "sint a * sint b < 2 ^ 63"
  shows "sint (a * b :: int64) = sint a * sint b"
proof -
  have "0 \<le> sint a * sint b" using assms(1,2) by (rule mult_nonneg_nonneg)
  then have "- (2 ^ 63) \<le> sint a * sint b" by simp
  then show ?thesis using assms(3) by (rule sint_mult_64)
qed

section \<open>roundDiv where the conversion is defined\<close>

lemma int64_of_float64_of_int:
  "- (2 ^ 63) \<le> r \<Longrightarrow> r < 2 ^ 63 \<Longrightarrow>
   int64_of_float64 impl (Finite (of_int r)) = word_of_int r"
  by (simp add: Let_def)

lemma roundDiv_exact:
  assumes a: "\<bar>sint a\<bar> < 2 ^ 52" and b0: "0 < sint b" and b1: "sint b < 2 ^ 53"
  shows "roundDiv impl a b = word_of_int (exact_round_div (sint a) (sint b))"
proof -
  define A where "A = sint a"
  define B where "B = sint b"
  have A: "\<bar>A\<bar> < 2 ^ 52" and B0: "0 < B" and B1: "\<bar>B\<bar> < 2 ^ 53"
    using a b0 b1 by (simp_all add: A_def B_def)
  have fa: "float64_of_int64 a = of_int A"
    unfolding float64_of_int64_def A_def [symmetric] using A by (intro rnd53_of_int) simp
  have fb: "float64_of_int64 b = of_int B"
    unfolding float64_of_int64_def B_def [symmetric] using B1 by (intro rnd53_of_int)
  have nz: "(of_int B :: rat) \<noteq> 0" using B0 by simp
  have r: "\<bar>exact_round_div A B\<bar> < 2 ^ 52"
    using exact_round_div_abs_le [OF B0, of A] A by linarith
  have "roundDiv impl a b =
      int64_of_float64 impl (math_Round (Finite (rnd53 (of_int A / of_int B))))"
    using nz by (simp add: roundDiv_def fa fb float64_div_def)
  also have "\<dots> = int64_of_float64 impl (Finite (of_int (exact_round_div A B)))"
    by (simp only: math_Round_rnd53 [OF A B0])
  also have "\<dots> = word_of_int (exact_round_div A B)"
    using r by (intro int64_of_float64_of_int) (simp_all add: abs_less_iff)
  finally show ?thesis unfolding A_def B_def .
qed

lemma roundDiv_exact_sint:
  assumes a: "\<bar>sint a\<bar> < 2 ^ 52" and b0: "0 < sint b" and b1: "sint b < 2 ^ 53"
  shows "sint (roundDiv impl a b) = exact_round_div (sint a) (sint b)"
proof -
  have "\<bar>exact_round_div (sint a) (sint b)\<bar> \<le> \<bar>sint a\<bar>"
    using b0 by (rule exact_round_div_abs_le)
  then have "\<bar>exact_round_div (sint a) (sint b)\<bar> < 2 ^ 52" using a by linarith
  then have "sint (word_of_int (exact_round_div (sint a) (sint b)) :: int64)
      = exact_round_div (sint a) (sint b)"
    by (intro sint_word_of_int_64) (simp_all add: abs_less_iff)
  then show ?thesis by (simp only: roundDiv_exact [OF a b0 b1])
qed

text \<open>
  For a non-negative dividend and a positive divisor the rounded \<open>float64\<close> quotient
  is within a relative error of about \<open>3 / 2 ^ 53\<close> of the exact quotient.
\<close>

lemma float_quotient:
  assumes a: "0 \<le> sint a" and b: "0 < sint b"
  defines "x \<equiv> rnd53 (float64_of_int64 a / float64_of_int64 b)"
  defines "q \<equiv> (of_int (sint a) / of_int (sint b) :: rat)"
  shows "roundDiv impl a b = int64_of_float64 impl (Finite (of_int \<lfloor>x + 1 / 2\<rfloor>))"
    and "0 \<le> x"
    and "q * ((1 - 1 / 2 ^ 53) * (1 - 1 / 2 ^ 53) / (1 + 1 / 2 ^ 53)) \<le> x"
    and "x \<le> q * ((1 + 1 / 2 ^ 53) * (1 + 1 / 2 ^ 53) / (1 - 1 / 2 ^ 53))"
proof -
  define A :: rat where "A = of_int (sint a)"
  define B :: rat where "B = of_int (sint b)"
  define fa where "fa = float64_of_int64 a"
  define fb where "fb = float64_of_int64 b"
  define lo :: rat where "lo = 1 - 1 / 2 ^ 53"
  define hi :: rat where "hi = 1 + 1 / 2 ^ 53"
  have lo0: "0 < lo" and hi0: "0 < hi" by (simp_all add: lo_def hi_def)
  have A0: "0 \<le> A" unfolding A_def using a by (simp del: of_int_sint)
  have B0: "0 < B" unfolding B_def using b by (simp del: of_int_sint)
  have fa1: "A * lo \<le> fa"
    unfolding fa_def float64_of_int64_def A_def [symmetric] lo_def using A0 by (rule rnd53_lower)
  have fa2: "fa \<le> A * hi"
    unfolding fa_def float64_of_int64_def A_def [symmetric] hi_def using A0 by (rule rnd53_upper)
  have fb0: "0 < fb"
    unfolding fb_def float64_of_int64_def B_def [symmetric] using B0 by (rule rnd53_pos)
  have fb1: "B * lo \<le> fb"
    unfolding fb_def float64_of_int64_def B_def [symmetric] lo_def
    using B0 by (intro rnd53_lower) linarith
  have fb2: "fb \<le> B * hi"
    unfolding fb_def float64_of_int64_def B_def [symmetric] hi_def
    using B0 by (intro rnd53_upper) linarith
  have fa0: "0 \<le> fa"
  proof -
    have "0 \<le> A * lo" using A0 lo0 by (intro mult_nonneg_nonneg) simp_all
    then show ?thesis using fa1 by linarith
  qed
  have q0: "0 \<le> fa / fb" using fa0 fb0 by simp
  have x: "x = rnd53 (fa / fb)" by (simp add: x_def fa_def fb_def)
  show x0: "0 \<le> x" unfolding x using q0 by (rule rnd53_nonneg)
  show "roundDiv impl a b = int64_of_float64 impl (Finite (of_int \<lfloor>x + 1 / 2\<rfloor>))"
    using fb0 x0 by (simp add: roundDiv_def fa_def [symmetric] fb_def [symmetric]
        float64_div_def x [symmetric])
  have l1: "A * lo / (B * hi) \<le> fa / fb"
  proof (rule frac_le)
    show "0 \<le> fa" by (rule fa0)
    show "A * lo \<le> fa" by (rule fa1)
    show "0 < fb" by (rule fb0)
    show "fb \<le> B * hi" by (rule fb2)
  qed
  have u1: "fa / fb \<le> A * hi / (B * lo)"
  proof (rule frac_le)
    show "0 \<le> A * hi" using A0 hi0 by (intro mult_nonneg_nonneg) simp_all
    show "fa \<le> A * hi" by (rule fa2)
    show "0 < B * lo" using B0 lo0 by (intro mult_pos_pos)
    show "B * lo \<le> fb" by (rule fb1)
  qed
  have "fa / fb * lo \<le> x" unfolding x lo_def using q0 by (rule rnd53_lower)
  moreover have "A * lo / (B * hi) * lo \<le> fa / fb * lo"
    using l1 lo0 by (intro mult_right_mono) simp_all
  moreover have "A * lo / (B * hi) * lo = A / B * (lo * lo / hi)" by simp
  ultimately have "A / B * (lo * lo / hi) \<le> x" by linarith
  then show "q * ((1 - 1 / 2 ^ 53) * (1 - 1 / 2 ^ 53) / (1 + 1 / 2 ^ 53)) \<le> x"
    by (simp only: q_def A_def B_def lo_def hi_def)
  have "x \<le> fa / fb * hi" unfolding x hi_def using q0 by (rule rnd53_upper)
  moreover have "fa / fb * hi \<le> A * hi / (B * lo) * hi"
    using u1 hi0 by (intro mult_right_mono) simp_all
  moreover have "A * hi / (B * lo) * hi = A / B * (hi * hi / lo)" by simp
  ultimately have "x \<le> A / B * (hi * hi / lo)" by linarith
  then show "x \<le> q * ((1 + 1 / 2 ^ 53) * (1 + 1 / 2 ^ 53) / (1 - 1 / 2 ^ 53))"
    by (simp only: q_def A_def B_def lo_def hi_def)
qed

lemma roundDiv_nonneg:
  assumes a: "0 \<le> sint a" and a63: "sint a \<le> 2 ^ 63 - 4096" and b: "0 < sint b"
  shows "0 \<le> sint (roundDiv impl a b)"
    and "sint b \<le> sint a \<Longrightarrow> 1 \<le> sint (roundDiv impl a b)"
proof -
  define x where "x = rnd53 (float64_of_int64 a / float64_of_int64 b)"
  define A :: rat where "A = of_int (sint a)"
  define B :: rat where "B = of_int (sint b)"
  define clo :: rat where "clo = (1 - 1 / 2 ^ 53) * (1 - 1 / 2 ^ 53) / (1 + 1 / 2 ^ 53)"
  define chi :: rat where "chi = (1 + 1 / 2 ^ 53) * (1 + 1 / 2 ^ 53) / (1 - 1 / 2 ^ 53)"
  define n where "n = \<lfloor>x + 1 / 2\<rfloor>"
  note fq1 = float_quotient(1) [OF a b, of impl, folded x_def]
  note fq = float_quotient(1,2,3,4) [OF a b, folded x_def A_def B_def clo_def chi_def]
  have A0: "0 \<le> A" unfolding A_def using a by (simp del: of_int_sint)
  have B1: "1 \<le> B"
  proof -
    have "1 \<le> sint b" using b by simp
    then have "(of_int 1 :: rat) \<le> of_int (sint b)" by (simp only: of_int_le_iff)
    then show ?thesis by (simp add: B_def del: of_int_sint)
  qed
  have A63: "A \<le> 2 ^ 63 - 4096"
  proof -
    have "(of_int (sint a) :: rat) \<le> of_int (2 ^ 63 - 4096)" using a63 by (simp only: of_int_le_iff)
    then show ?thesis by (simp add: A_def del: of_int_sint)
  qed
  have chi0: "0 \<le> chi" by (simp add: chi_def)
  have "A / B \<le> A / 1" using A0 B1 by (intro divide_left_mono) simp_all
  then have "A / B \<le> A" by simp
  then have s1: "A / B * chi \<le> A * chi" using chi0 by (intro mult_right_mono)
  have s2: "A * chi \<le> (2 ^ 63 - 4096) * chi" using A63 chi0 by (intro mult_right_mono)
  have s3: "(2 ^ 63 - 4096) * chi + 1 / 2 < 2 ^ 63" by (simp add: chi_def)
  have xs: "x + 1 / 2 < 2 ^ 63" using fq(4) s1 s2 s3 by linarith
  have n0: "0 \<le> n" unfolding n_def using fq(2) by simp
  have "of_int n \<le> x + 1 / 2" unfolding n_def by linarith
  then have "(of_int n :: rat) < of_int (2 ^ 63)" using xs by simp
  then have n63: "n < 2 ^ 63" by (simp only: of_int_less_iff)
  have "- (2 ^ 63) \<le> n" using n0 by simp
  then have r: "roundDiv impl a b = word_of_int n"
    using n63 by (simp only: fq1 n_def [symmetric] int64_of_float64_of_int)
  have sr: "sint (roundDiv impl a b) = n"
    using n0 n63 by (simp add: r sint_word_of_int_64)
  show "0 \<le> sint (roundDiv impl a b)" using n0 by (simp add: sr)
  show "1 \<le> sint (roundDiv impl a b)" if "sint b \<le> sint a"
  proof -
    have "B \<le> A" unfolding A_def B_def using that by (simp only: of_int_le_iff)
    then have "1 \<le> A / B" using B1 by simp
    moreover have clo0: "0 \<le> clo" by (simp add: clo_def)
    ultimately have "1 * clo \<le> A / B * clo" by (intro mult_right_mono)
    moreover have "1 / 2 < clo" by (simp add: clo_def)
    ultimately have "1 / 2 < x" using fq(3) by linarith
    then have "1 \<le> n" unfolding n_def by linarith
    then show ?thesis by (simp add: sr)
  qed
qed

lemma roundDiv_mult_exact:
  assumes b: "0 < sint b" and a: "sint a = sint b * K" and K0: "0 \<le> K" and K50: "K \<le> 2 ^ 50"
  shows "roundDiv impl a b = word_of_int K"
proof -
  define x where "x = rnd53 (float64_of_int64 a / float64_of_int64 b)"
  define clo :: rat where "clo = (1 - 1 / 2 ^ 53) * (1 - 1 / 2 ^ 53) / (1 + 1 / 2 ^ 53)"
  define chi :: rat where "chi = (1 + 1 / 2 ^ 53) * (1 + 1 / 2 ^ 53) / (1 - 1 / 2 ^ 53)"
  define k :: rat where "k = of_int K"
  have a0: "0 \<le> sint a" using a b K0 by simp
  have q: "(of_int (sint a) / of_int (sint b) :: rat) = k"
  proof -
    have "(of_int (sint a) :: rat) = of_int (sint b) * of_int K"
      by (simp only: a of_int_mult)
    moreover have "(of_int (sint b) :: rat) \<noteq> 0" using b by (simp del: of_int_sint)
    ultimately show ?thesis by (simp add: k_def del: of_int_sint)
  qed
  note fq1 = float_quotient(1) [OF a0 b, of impl, folded x_def]
  note fq = float_quotient(1,2,3,4) [OF a0 b, unfolded q, folded x_def clo_def chi_def]
  have k0: "0 \<le> k" unfolding k_def using K0 by simp
  have k50: "k \<le> 2 ^ 50"
  proof -
    have "(of_int K :: rat) \<le> of_int (2 ^ 50)" using K50 by (simp only: of_int_le_iff)
    then show ?thesis by (simp add: k_def)
  qed
  have c1: "0 \<le> 1 - clo" and c2: "2 ^ 50 * (1 - clo) \<le> 1 / 2"
    and c3: "0 \<le> chi - 1" and c4: "2 ^ 50 * (chi - 1) < 1 / 2"
    by (simp_all add: clo_def chi_def)
  have "k * (1 - clo) \<le> 2 ^ 50 * (1 - clo)" using k50 c1 by (intro mult_right_mono)
  then have "k - 1 / 2 \<le> k * clo" using c2 by (simp add: algebra_simps)
  then have lo: "k \<le> x + 1 / 2" using fq(3) by linarith
  have "k * (chi - 1) \<le> 2 ^ 50 * (chi - 1)" using k50 c3 by (intro mult_right_mono)
  then have "k * chi < k + 1 / 2" using c4 by (simp add: algebra_simps)
  then have up: "x + 1 / 2 < k + 1" using fq(4) by linarith
  have "\<lfloor>x + 1 / 2\<rfloor> = K" using lo up unfolding k_def by linarith
  then have "roundDiv impl a b = int64_of_float64 impl (Finite (of_int K))"
    by (simp only: fq1)
  also have "\<dots> = word_of_int K"
    using K0 K50 by (intro int64_of_float64_of_int) simp_all
  finally show ?thesis .
qed

section \<open>Parameter validation\<close>

text \<open>
  Claim C4. \<open>Generate\<close> and \<open>Compute\<close> return \<open>ErrInvalidParameter\<close> exactly when the
  count or cost is negative or one of \<open>Burst\<close>, \<open>Rate\<close>, \<open>Period\<close> is not positive;
  otherwise they return \<open>ErrCostHigherThanBurst\<close> exactly when the count or cost exceeds
  \<open>Burst\<close>. Whenever \<open>Compute\<close> returns an error, it returns the input bucket and the
  zero \<open>Result\<close>: the raw engine has not run.
\<close>

theorem validation_errors:
  fixes opts :: Options
  defines "invalid c \<equiv> c <s 0 \<or> Burst opts \<le>s 0 \<or> Rate opts \<le>s 0 \<or> Period opts \<le>s 0"
  shows "((\<exists>b. Generate impl now count opts = (b, Some ErrInvalidParameter)) \<longleftrightarrow> invalid count)
       \<and> ((\<exists>b. Generate impl now count opts = (b, Some ErrCostHigherThanBurst)) \<longleftrightarrow>
            \<not> invalid count \<and> Burst opts <s count)
       \<and> ((\<exists>b r. Compute impl now bucket cost opts = (b, r, Some ErrInvalidParameter)) \<longleftrightarrow>
            invalid cost)
       \<and> ((\<exists>b r. Compute impl now bucket cost opts = (b, r, Some ErrCostHigherThanBurst)) \<longleftrightarrow>
            \<not> invalid cost \<and> Burst opts <s cost)
       \<and> (\<forall>b r e. Compute impl now bucket cost opts = (b, r, Some e) \<longrightarrow>
            b = bucket \<and> r = Result_zero)"
  unfolding invalid_def
  by (auto simp: Generate_def Compute_def split: prod.splits if_splits)

theorem validation_errors_witness:
  "Compute amd64 0 7 2 \<lparr>Burst = 1, Rate = 1, Period = 1\<rparr> =
     (7, Result_zero, Some ErrCostHigherThanBurst)
   \<and> Compute amd64 0 7 1 \<lparr>Burst = 0, Rate = 1, Period = 1\<rparr> =
     (7, Result_zero, Some ErrInvalidParameter)"
proof -
  have a: "\<exists>b r. Compute amd64 0 7 2 \<lparr>Burst = 1, Rate = 1, Period = 1\<rparr> =
      (b, r, Some ErrCostHigherThanBurst)"
    using validation_errors [of amd64 0 0 "\<lparr>Burst = 1, Rate = 1, Period = 1\<rparr>" 7 2]
    by (simp add: word_sless_alt word_sle_eq)
  have b: "\<exists>b r. Compute amd64 0 7 1 \<lparr>Burst = 0, Rate = 1, Period = 1\<rparr> =
      (b, r, Some ErrInvalidParameter)"
    using validation_errors [of amd64 0 0 "\<lparr>Burst = 0, Rate = 1, Period = 1\<rparr>" 7 1]
    by (simp add: word_sless_alt word_sle_eq)
  show ?thesis
    using a b validation_errors [of amd64 0 0 "\<lparr>Burst = 1, Rate = 1, Period = 1\<rparr>" 7 2]
      validation_errors [of amd64 0 0 "\<lparr>Burst = 0, Rate = 1, Period = 1\<rparr>" 7 1]
    by auto
qed

section \<open>The emission interval\<close>

text \<open>
  Claim C5, as stated: for every \<open>int64\<close> period and positive rate, \<open>roundDiv\<close> is the
  exact nearest integer of period / rate. It is not: \<open>float64(2 ^ 53 + 1)\<close> is \<open>2 ^ 53\<close>,
  so \<open>roundDiv (2 ^ 53 + 1) 1\<close> is \<open>2 ^ 53\<close>.
\<close>

theorem roundDiv_inexact_counterexample:
  "roundDiv amd64 9007199254740993 1 = 9007199254740992
   \<and> exact_round_div (sint (9007199254740993 :: int64)) (sint (1 :: int64)) = 9007199254740993
   \<and> (9007199254740992 :: int64) \<noteq> 9007199254740993"
  by code_simp

text \<open>
  Claim C5, amended: for \<open>\<bar>period\<bar> < 2 ^ 52\<close> and \<open>0 < rate < 2 ^ 53\<close>, \<open>roundDiv\<close>
  returns the exact nearest integer of period / rate, ties away from zero.
\<close>

theorem roundDiv_exact_in_range:
  assumes "\<bar>sint period\<bar> < 2 ^ 52" and "0 < sint rate" and "sint rate < 2 ^ 53"
  shows "roundDiv impl period rate = word_of_int (exact_round_div (sint period) (sint rate))
       \<and> sint (word_of_int (exact_round_div (sint period) (sint rate)) :: int64)
           = exact_round_div (sint period) (sint rate)"
  using roundDiv_exact [OF assms, of impl] roundDiv_exact_sint [OF assms, of impl] by simp

theorem roundDiv_exact_in_range_witness:
  "roundDiv amd64 1000000000 3 = 333333333 \<and> roundDiv amd64 (- 5) 2 = - 3
   \<and> roundDiv amd64 5 2 = 3"
proof -
  have a: "\<bar>sint (1000000000 :: int64)\<bar> < 2 ^ 52" "0 < sint (3 :: int64)" "sint (3 :: int64) < 2 ^ 53"
    by simp_all
  have b: "\<bar>sint (- 5 :: int64)\<bar> < 2 ^ 52" "0 < sint (2 :: int64)" "sint (2 :: int64) < 2 ^ 53"
    by simp_all
  have c: "\<bar>sint (5 :: int64)\<bar> < 2 ^ 52" by simp
  have e1: "exact_round_div 1000000000 3 = 333333333" by code_simp
  have e2: "exact_round_div (- 5) 2 = - 3" by code_simp
  have e3: "exact_round_div 5 2 = 3" by code_simp
  show ?thesis
    using roundDiv_exact_in_range [OF a, of amd64] roundDiv_exact_in_range [OF b, of amd64]
      roundDiv_exact_in_range [OF c b(2) b(3), of amd64] e1 e2 e3
    by simp
qed

section \<open>A bucket at or past full replenishment\<close>

lemma ComputeRaw_fresh:
  fixes impl :: conversion and period rate :: int64
  defines "ei \<equiv> roundDiv impl period rate"
  assumes E: "0 < sint ei" and EB: "sint ei * sint burst < 2 ^ 63"
    and B50: "sint burst \<le> 2 ^ 50"
    and B: "0 < sint burst" and C0: "0 \<le> sint cost" and CB: "sint cost \<le> sint burst"
    and fresh: "tat0 \<le>s now"
  shows "ComputeRaw impl tat0 now burst rate period cost =
           (now + ei * cost, False, burst - cost, 0, ei * cost)"
proof -
  define tat where "tat = (if tat0 <s now then now else tat0)"
  have tat: "tat = now" using fresh by (auto simp: tat_def dest: sless_antisym_64)
  have bc: "sint (burst - cost) = sint burst - sint cost"
    using C0 CB sint_bounds_64 [of burst] by (intro sint_diff_64) linarith+
  have le1: "sint ei * (sint burst - sint cost) \<le> sint ei * sint burst"
    using E C0 by (intro mult_left_mono) linarith+
  have "sint ei * (sint burst - sint cost) < 2 ^ 63" using le1 EB by linarith
  then have d: "sint (ei * (burst - cost)) = sint ei * (sint burst - sint cost)"
    using E CB by (subst sint_mult_nonneg_64) (simp_all add: bc)
  have K0: "0 \<le> sint burst - sint cost" using CB by simp
  have K50: "sint burst - sint cost \<le> 2 ^ 50" using C0 B50 by linarith
  have rd: "roundDiv impl (ei * (burst - cost)) ei = burst - cost"
  proof -
    have "roundDiv impl (ei * (burst - cost)) ei = word_of_int (sint burst - sint cost)"
      using E d K0 K50 by (rule roundDiv_mult_exact)
    then show ?thesis by simp
  qed
  have rd': "roundDiv impl (ei * burst - ei * cost) ei = burst - cost"
    using rd by (simp add: right_diff_distrib)
  have n1: "\<not> (burst - cost <s 0)" using C0 CB by (simp add: word_sless_alt bc)
  have n2: "\<not> (burst - cost = 0 \<and> ei * cost \<le>s 0)"
  proof
    assume a: "burst - cost = 0 \<and> ei * cost \<le>s 0"
    then have "sint (burst - cost) = 0" by simp
    then have cb: "sint cost = sint burst" using bc by simp
    have "sint ei * sint cost < 2 ^ 63" using EB by (simp add: cb)
    then have "sint (ei * cost) = sint ei * sint cost"
      using E C0 by (intro sint_mult_nonneg_64) simp_all
    moreover have "0 < sint ei * sint cost" using E B by (simp add: cb)
    ultimately show False using a by (simp add: word_sle_eq)
  qed
  show ?thesis
    using n1 n2
    by (simp add: ComputeRaw_def ei_def [symmetric] tat_def [symmetric] tat rd' Let_def)
qed

text \<open>
  Claim C10, as stated: with \<open>tat \<le> now\<close>, valid parameters, \<open>1 \<le> cost \<le> burst\<close> and a
  positive emission interval, \<open>ComputeRaw\<close> always allows the request, with
  \<open>remaining = burst - cost\<close>. It does not where \<open>emissionInterval * burst\<close> wraps
  around: with period \<open>2 ^ 40\<close>, rate 1 and burst \<open>2 ^ 24\<close> the burst offset is \<open>2 ^ 64\<close>,
  that is 0, and a request of cost 1 on a fresh bucket is denied. And where
  \<open>burst - cost\<close> is not a \<open>float64\<close> the remaining count is rounded: with emission
  interval 1, burst \<open>2 ^ 53 + 2\<close> and cost 1 it is \<open>2 ^ 53\<close>, not \<open>2 ^ 53 + 1\<close>.
\<close>

theorem fresh_bucket_denied_counterexample:
  "roundDiv amd64 1099511627776 1 = 1099511627776
   \<and> (0 :: int64) <s 1099511627776
   \<and> (0 :: int64) \<le>s 0 \<and> (0 :: int64) <s 16777216 \<and> (0 :: int64) <s 1
   \<and> (1 :: int64) \<le>s 1 \<and> (1 :: int64) \<le>s 16777216
   \<and> ComputeRaw amd64 0 0 16777216 1 1099511627776 1 = (0, True, 0, 1099511627776, 0)
   \<and> roundDiv amd64 1 1 = 1 \<and> (1 :: int64) \<le>s 9007199254740994
   \<and> ComputeRaw amd64 0 0 9007199254740994 1 1 1 = (1, False, 9007199254740992, 0, 1)
   \<and> (9007199254740994 :: int64) - 1 \<noteq> 9007199254740992"
  by code_simp

text \<open>
  Claim C10, amended: for \<open>tat \<le> now\<close>, \<open>1 \<le> cost \<le> burst\<close>, a positive emission
  interval, \<open>emissionInterval * burst < 2 ^ 63\<close> (the burst offset does not wrap around)
  and \<open>burst \<le> 2 ^ 50\<close> (the \<open>float64\<close> quotient rounds to the exact count),
  \<open>ComputeRaw\<close> returns limited = false, remaining = burst - cost,
  new TAT = now + emissionInterval * cost, retryIn = 0 and
  resetIn = emissionInterval * cost.
\<close>

theorem fresh_bucket_allows:
  fixes impl :: conversion and period rate :: int64
  defines "ei \<equiv> roundDiv impl period rate"
  assumes "0 < sint ei" and "sint ei * sint burst < 2 ^ 63" and "sint burst \<le> 2 ^ 50"
    and "1 \<le> sint cost" and "sint cost \<le> sint burst" and "tat0 \<le>s now"
  shows "ComputeRaw impl tat0 now burst rate period cost =
           (now + ei * cost, False, burst - cost, 0, ei * cost)"
  unfolding ei_def using assms unfolding ei_def by (intro ComputeRaw_fresh) simp_all

theorem fresh_bucket_allows_witness:
  "ComputeRaw amd64 0 0 100 1 86400000000000 1 =
     (86400000000000, False, 99, 0, 86400000000000)
   \<and> \<not> (86400000000000 * 100 < (2 :: int) ^ 52)"
proof -
  have ei: "roundDiv amd64 86400000000000 1 = 86400000000000" by code_simp
  have h: "0 < sint (roundDiv amd64 86400000000000 1)"
    "sint (roundDiv amd64 86400000000000 1) * sint (100 :: int64) < 2 ^ 63"
    "sint (100 :: int64) \<le> 2 ^ 50"
    "1 \<le> sint (1 :: int64)" "sint (1 :: int64) \<le> sint (100 :: int64)" "(0 :: int64) \<le>s 0"
    by (simp_all add: ei word_sle_eq)
  show ?thesis using fresh_bucket_allows [OF h] by (simp add: ei)
qed

section \<open>A denied request leaves the bucket alone\<close>

lemma ComputeRaw_stale_not_denied:
  fixes impl :: conversion and period rate :: int64
  defines "ei \<equiv> roundDiv impl period rate"
  assumes E: "0 < sint ei" and EB: "sint ei * sint burst \<le> 2 ^ 63 - 4096"
    and B: "0 < sint burst" and C0: "0 \<le> sint cost" and CB: "sint cost \<le> sint burst"
    and stale: "tat0 <s now"
  shows "ComputeRaw impl tat0 now burst rate period cost \<noteq> (t', True, remaining, retry, reset)"
proof
  assume res: "ComputeRaw impl tat0 now burst rate period cost = (t', True, remaining, retry, reset)"
  have p: "(2 :: int) ^ 63 - 4096 < 2 ^ 63" by simp
  have bc: "sint (burst - cost) = sint burst - sint cost"
    using C0 CB sint_bounds_64 [of burst] by (intro sint_diff_64) linarith+
  have le1: "sint ei * (sint burst - sint cost) \<le> sint ei * sint burst"
    using E C0 by (intro mult_left_mono) linarith+
  have "sint ei * (sint burst - sint cost) < 2 ^ 63" using le1 EB p by linarith
  then have d: "sint (ei * (burst - cost)) = sint ei * (sint burst - sint cost)"
    using E CB by (subst sint_mult_nonneg_64) (simp_all add: bc)
  have d0: "0 \<le> sint (ei * (burst - cost))"
    unfolding d using E CB by (intro mult_nonneg_nonneg) linarith+
  have d63: "sint (ei * (burst - cost)) \<le> 2 ^ 63 - 4096" unfolding d using le1 EB by linarith
  define r where "r = roundDiv impl (ei * (burst - cost)) ei"
  have w: "now - (now + ei * cost - ei * burst) = ei * (burst - cost)"
    by (simp add: algebra_simps)
  have step: "ComputeRaw impl tat0 now burst rate period cost =
      (if r <s 0 then
         (now, True, roundDiv impl (now - (now - ei * burst)) ei,
          ei * (burst - cost) * (- 1), now - now)
       else if r = 0 \<and> ei * cost \<le>s 0 then (now, True, 0, 0, now - now)
       else (now + ei * cost, False, r, 0, now + ei * cost - now))"
    unfolding ComputeRaw_def ei_def [symmetric] Let_def r_def using stale
    by (simp only: if_True w)
  have br: "r <s 0 \<or> (r = 0 \<and> ei * cost \<le>s 0)"
    using res [unfolded step] by (auto split: if_splits)
  have r0: "0 \<le> sint r" unfolding r_def using d0 d63 E by (rule roundDiv_nonneg(1))
  then have "r = 0 \<and> ei * cost \<le>s 0" using br by (auto simp: word_sless_alt)
  then have rz: "sint r = 0" and ic: "sint (ei * cost) \<le> 0" by (simp_all add: word_sle_eq)
  have le2: "sint ei * sint cost \<le> sint ei * sint burst"
    using E CB by (intro mult_left_mono) linarith+
  have "sint ei * sint cost < 2 ^ 63" using le2 EB p by linarith
  then have "sint (ei * cost) = sint ei * sint cost"
    using E C0 by (intro sint_mult_nonneg_64) simp_all
  then have "sint ei * sint cost \<le> 0" using ic by simp
  then have c: "sint cost = 0" using E C0 by (simp add: mult_le_0_iff)
  have "sint ei \<le> sint ei * sint burst"
    using E B mult_left_mono [of 1 "sint burst" "sint ei"] by simp
  then have "sint ei \<le> sint (ei * (burst - cost))" by (simp add: d c)
  then have "1 \<le> sint r" unfolding r_def using roundDiv_nonneg(2) [OF d0 d63 E] by blast
  then show False using rz by simp
qed

text \<open>
  Claim C2, as stated: for all valid parameters, a denied \<open>ComputeRaw\<close> returns the input
  TAT. With period \<open>2 ^ 40\<close>, rate 1 and burst \<open>2 ^ 24\<close> the burst offset wraps around to
  0; a zero-cost call on a stale bucket (TAT 0, now 5) is then denied and returns the
  TAT 5. With emission interval 1 and burst \<open>2 ^ 63 - 1\<close> nothing wraps around, but
  \<open>float64(2 ^ 63 - 1)\<close> is \<open>2 ^ 63\<close>, which is not an \<open>int64\<close>: on amd64 the remaining
  count is \<open>- 2 ^ 63\<close>, and the same call is denied and returns the TAT 5.
\<close>

theorem denied_moves_tat_counterexample:
  "(0 :: int64) <s 16777216 \<and> (0 :: int64) <s 1 \<and> (0 :: int64) <s 1099511627776
   \<and> (0 :: int64) \<le>s 0 \<and> (0 :: int64) \<le>s 16777216
   \<and> ComputeRaw amd64 0 5 16777216 1 1099511627776 0 = (5, True, 0, 0, 0)
   \<and> (0 :: int64) <s 9223372036854775807 \<and> roundDiv amd64 1 1 = 1
   \<and> ComputeRaw amd64 0 5 9223372036854775807 1 1 0 =
       (5, True, - 9223372036854775808, - 9223372036854775807, 0)
   \<and> (5 :: int64) \<noteq> 0"
  by code_simp

text \<open>
  Claim C2, amended: for valid parameters with a positive emission interval and
  \<open>emissionInterval * burst \<le> 2 ^ 63 - 4096\<close> (the burst offset does not wrap around, and
  its \<open>float64\<close> quotients stay below \<open>2 ^ 63\<close>), a denied \<open>ComputeRaw\<close> returns the input
  TAT, and the same call on the returned TAT at the same \<open>now\<close> gives the same denied
  result.
\<close>

theorem denied_keeps_tat:
  fixes impl :: conversion and period rate :: int64
  defines "ei \<equiv> roundDiv impl period rate"
  assumes E: "0 < sint ei" and EB: "sint ei * sint burst \<le> 2 ^ 63 - 4096"
    and B: "0 < sint burst" and C0: "0 \<le> sint cost" and CB: "sint cost \<le> sint burst"
    and res: "ComputeRaw impl tat0 now burst rate period cost =
                (t', True, remaining, retry, reset)"
  shows "t' = tat0 \<and>
         ComputeRaw impl t' now burst rate period cost = (t', True, remaining, retry, reset)"
proof -
  have nl: "\<not> tat0 <s now"
    using ComputeRaw_stale_not_denied [of impl period rate burst cost tat0 now]
      E EB B C0 CB res unfolding ei_def by blast
  have "t' = tat0"
    using res nl by (auto simp: ComputeRaw_def Let_def split: if_splits)
  then show ?thesis using res by simp
qed

theorem denied_keeps_tat_witness:
  "ComputeRaw amd64 4000000000 0 4 10 10000000000 1 =
     (4000000000, True, 0, 1000000000, 4000000000)"
proof -
  have ei: "roundDiv amd64 10000000000 10 = 1000000000" by code_simp
  have h: "0 < sint (roundDiv amd64 10000000000 10)"
    "sint (roundDiv amd64 10000000000 10) * sint (4 :: int64) \<le> 2 ^ 63 - 4096"
    "0 < sint (4 :: int64)" "0 \<le> sint (1 :: int64)" "sint (1 :: int64) \<le> sint (4 :: int64)"
    by (simp_all add: ei)
  have r: "ComputeRaw amd64 4000000000 0 4 10 10000000000 1 =
      (4000000000, True, 0, 1000000000, 4000000000)" by code_simp
  show ?thesis using denied_keeps_tat [OF h r] by simp
qed

section \<open>Zero-cost queries\<close>

lemma ComputeRaw_zero_cost:
  "fst (ComputeRaw impl tat0 now burst rate period 0) = (if tat0 <s now then now else tat0)"
  "ComputeRaw impl (if tat0 <s now then now else tat0) now burst rate period 0 =
   ComputeRaw impl tat0 now burst rate period 0"
proof -
  define c where "c = (if tat0 <s now then now else tat0)"
  have idem: "(if c <s now then now else c) = c"
    by (auto simp: c_def word_sless_alt)
  show "ComputeRaw impl (if tat0 <s now then now else tat0) now burst rate period 0 =
      ComputeRaw impl tat0 now burst rate period 0"
    by (simp only: ComputeRaw_def idem c_def [symmetric])
  show "fst (ComputeRaw impl tat0 now burst rate period 0) = (if tat0 <s now then now else tat0)"
    by (simp add: ComputeRaw_def Let_def)
qed

text \<open>
  Claim C3, as stated: a call with cost 0 returns the input bucket. It does not on a stale
  bucket, whose TAT is before \<open>now\<close>: the TAT is first reset to \<open>now\<close>, and the query on a
  bucket of TAT 0 at time 5 returns the bucket of TAT 5.
\<close>

theorem zero_cost_moves_stale_bucket_counterexample:
  "Compute amd64 5 0 0 \<lparr>Burst = 50, Rate = 10, Period = Second\<rparr> =
     (5, \<lparr>Limited = False, Remaining = 50, RetryIn = 0, ResetIn = 0\<rparr>, None)
   \<and> ComputeRaw amd64 0 5 50 10 1000000000 0 = (5, False, 50, 0, 0)
   \<and> (5 :: int64) \<noteq> 0"
  by code_simp

text \<open>
  Claim C3, amended: for every bucket, \<open>now\<close> and options, on every platform, a call of
  \<open>Compute\<close> (resp. \<open>ComputeRaw\<close>) with cost 0 returns the input bucket when its TAT is
  not before \<open>now\<close>, and the bucket of TAT \<open>now\<close> otherwise (on an error \<open>Compute\<close> returns
  the input bucket); repeating the call at the same \<open>now\<close> on the returned bucket returns
  that bucket again and the same result.
\<close>

theorem zero_cost_query:
  "fst (ComputeRaw impl tat0 now burst rate period 0) = (if tat0 <s now then now else tat0)
   \<and> ComputeRaw impl (fst (ComputeRaw impl tat0 now burst rate period 0)) now burst rate period 0
       = ComputeRaw impl tat0 now burst rate period 0
   \<and> fst (Compute impl now bucket 0 opts) =
       (if snd (snd (Compute impl now bucket 0 opts)) = None \<and> bucket <s now then now
        else bucket)
   \<and> Compute impl now (fst (Compute impl now bucket 0 opts)) 0 opts
       = Compute impl now bucket 0 opts"
proof (intro conjI)
  show r1: "fst (ComputeRaw impl tat0 now burst rate period 0) =
      (if tat0 <s now then now else tat0)"
    by (rule ComputeRaw_zero_cost)
  show "ComputeRaw impl (fst (ComputeRaw impl tat0 now burst rate period 0)) now burst rate period 0
       = ComputeRaw impl tat0 now burst rate period 0"
    by (simp only: r1 ComputeRaw_zero_cost(2))
  show c1: "fst (Compute impl now bucket 0 opts) =
       (if snd (snd (Compute impl now bucket 0 opts)) = None \<and> bucket <s now then now
        else bucket)"
    using ComputeRaw_zero_cost(1) [of impl bucket now "Burst opts" "Rate opts" "Period opts"]
    by (auto simp: Compute_def split: prod.splits if_splits)
  show "Compute impl now (fst (Compute impl now bucket 0 opts)) 0 opts
       = Compute impl now bucket 0 opts"
  proof (cases "snd (snd (Compute impl now bucket 0 opts)) = None")
    case True
    then have v: "\<not> ((0 :: int64) <s 0 \<or> Burst opts \<le>s 0 \<or> Rate opts \<le>s 0 \<or> Period opts \<le>s 0)"
      "\<not> Burst opts <s 0"
      by (auto simp: Compute_def split: if_splits)
    have "fst (Compute impl now bucket 0 opts) = (if bucket <s now then now else bucket)"
      using c1 True by simp
    then show ?thesis
      using v ComputeRaw_zero_cost(2) [of impl bucket now "Burst opts" "Rate opts" "Period opts"]
      by (simp add: Compute_def)
  next
    case False
    have "fst (Compute impl now bucket 0 opts) = bucket"
      by (simp only: c1 False simp_thms if_False)
    then show ?thesis by simp
  qed
qed

theorem zero_cost_query_witness:
  "Compute amd64 7 5 0 Example_opts =
     (7, \<lparr>Limited = False, Remaining = 50, RetryIn = 0, ResetIn = 0\<rparr>, None)
   \<and> Compute amd64 7 7 0 Example_opts =
     (7, \<lparr>Limited = False, Remaining = 50, RetryIn = 0, ResetIn = 0\<rparr>, None)
   \<and> Compute amd64 5 0 0 \<lparr>Burst = 1000, Rate = 10000000000, Period = Second\<rparr> =
     (5, \<lparr>Limited = True, Remaining = - 9223372036854775808, RetryIn = 0, ResetIn = 0\<rparr>, None)
   \<and> Compute amd64 5 5 0 \<lparr>Burst = 1000, Rate = 10000000000, Period = Second\<rparr> =
     (5, \<lparr>Limited = True, Remaining = - 9223372036854775808, RetryIn = 0, ResetIn = 0\<rparr>, None)"
proof -
  have a: "Compute amd64 7 5 0 Example_opts =
     (7, \<lparr>Limited = False, Remaining = 50, RetryIn = 0, ResetIn = 0\<rparr>, None)"
    by code_simp
  have b: "Compute amd64 5 0 0 \<lparr>Burst = 1000, Rate = 10000000000, Period = Second\<rparr> =
     (5, \<lparr>Limited = True, Remaining = - 9223372036854775808, RetryIn = 0, ResetIn = 0\<rparr>, None)"
    by code_simp
  show ?thesis
    using a b
      zero_cost_query [where impl = amd64 and now = 7 and bucket = 5 and opts = Example_opts]
      zero_cost_query [where impl = amd64 and now = 5 and bucket = 0
        and opts = "\<lparr>Burst = 1000, Rate = 10000000000, Period = Second\<rparr>"]
    by simp
qed

section \<open>Signs of the reported values\<close>

lemma exact_round_div_small:
  assumes B: "0 < B" and A: "- B < 2 * A" and A0: "A \<le> 0"
  shows "exact_round_div A B = 0"
proof -
  define q :: rat where "q = of_int A / of_int B"
  have b0: "(0 :: rat) < of_int B" using B by simp
  have "(of_int (- B) :: rat) < of_int (2 * A)" using A by (simp only: of_int_less_iff)
  then have "- (of_int B :: rat) < 2 * of_int A" by simp
  then have "- (1 / 2) < q" using b0 by (simp add: q_def field_simps)
  moreover have "q \<le> 0" using A0 b0 by (simp add: q_def divide_le_0_iff)
  ultimately have "\<lfloor>q + 1 / 2\<rfloor> = 0" and "\<lfloor>- q + 1 / 2\<rfloor> = 0" by linarith+
  then show ?thesis by (simp add: exact_round_div_def q_def [symmetric] Let_def)
qed

lemma ComputeRaw_signs:
  fixes impl :: conversion and period rate :: int64
  defines "ei \<equiv> roundDiv impl period rate"
  assumes E: "0 < sint ei" and EB: "sint ei * sint burst < 2 ^ 61"
    and B: "0 < sint burst" and C0: "0 \<le> sint cost" and CB: "sint cost \<le> sint burst"
    and TN: "sint tat0 - sint now < 2 ^ 61"
    and res: "ComputeRaw impl tat0 now burst rate period cost =
                (t', limited, remaining, retry, reset)"
  shows "0 \<le> sint retry \<and> 0 \<le> sint reset \<and>
         (sint tat0 - sint now \<le> sint ei * sint burst \<or>
          sint ei < 2 ^ 53 \<and> 2 * (sint tat0 - sint now - sint ei * sint burst) < sint ei
          \<longrightarrow> 0 \<le> sint remaining)"
proof -
  define tat where "tat = (if tat0 <s now then now else tat0)"
  define T where "T = sint tat"
  define N where "N = sint now"
  define IC where "IC = sint ei * sint cost"
  define BO where "BO = sint ei * sint burst"
  define diff where "diff = now - (tat + ei * cost - ei * burst)"
  define d2 where "d2 = now - (tat - ei * burst)"
  define D where "D = N - T - IC + BO"
  define D2 where "D2 = N - T + BO"
  have p: "(2 :: int) ^ 61 + 2 ^ 61 = 2 ^ 62" "(2 :: int) ^ 62 < 2 ^ 63 - 4096"
    "(2 :: int) ^ 63 - 4096 < 2 ^ 63" "(2 :: int) ^ 53 < 2 ^ 61"
    "(2 :: int) ^ 53 = 2 * 2 ^ 52" "(0 :: int) < 2 ^ 61" "(0 :: int) < 2 ^ 52"
    by simp_all
  have T: "T = max (sint tat0) N"
    by (auto simp: T_def tat_def N_def word_sless_alt)
  have TN1: "0 \<le> T - N" and TN2: "T - N < 2 ^ 61"
    using TN by (auto simp: T N_def)
  have IC0: "0 \<le> IC" unfolding IC_def using E C0 by (intro mult_nonneg_nonneg) simp_all
  have ICBO: "IC \<le> BO" unfolding IC_def BO_def using E CB by (intro mult_left_mono) simp_all
  have BO61: "BO < 2 ^ 61" using EB by (simp add: BO_def)
  have BO0: "0 \<le> BO" using IC0 ICBO by linarith
  have sI: "sint (ei * cost) = IC"
  proof -
    have "sint ei * sint cost < 2 ^ 63" using ICBO [unfolded IC_def] BO61 p by linarith
    then show ?thesis unfolding IC_def using E C0 by (intro sint_mult_nonneg_64) simp_all
  qed
  have sBO: "sint (ei * burst) = BO"
  proof -
    have "sint ei * sint burst < 2 ^ 63" using BO61 [unfolded BO_def] p by linarith
    then show ?thesis unfolding BO_def using E B by (intro sint_mult_nonneg_64) simp_all
  qed
  have wI: "ei * cost = word_of_int IC" using sI by auto
  have wBO: "ei * burst = word_of_int BO" using sBO by auto
  have wT: "tat = word_of_int T" by (simp add: T_def)
  have wN: "now = word_of_int N" by (simp add: N_def)
  have wdiff: "diff = word_of_int D"
    unfolding diff_def D_def by (subst wI, subst wBO, subst wT, subst wN) simp
  have wd2: "d2 = word_of_int D2"
    unfolding d2_def D2_def by (subst wBO, subst wT, subst wN) simp
  have Db: "\<bar>D\<bar> < 2 ^ 62" unfolding D_def using TN1 TN2 IC0 ICBO BO61 p by linarith
  have D2b: "\<bar>D2\<bar> < 2 ^ 62" unfolding D2_def using TN1 TN2 IC0 ICBO BO61 p by linarith
  have small: "sint (word_of_int k :: int64) = k" if "\<bar>k\<bar> < 2 ^ 62" for k
    using that p by (intro sint_word_of_int_64) linarith+
  have sdiff: "sint diff = D" using Db by (simp only: wdiff small)
  have sd2: "sint d2 = D2" using D2b by (simp only: wd2 small)
  define r where "r = roundDiv impl diff ei"
  define r2 where "r2 = roundDiv impl d2 ei"
  have s_reset1: "sint (tat - now) = T - N"
  proof -
    have "tat - now = word_of_int (T - N)" by (subst wT, subst wN) simp
    moreover have "\<bar>T - N\<bar> < 2 ^ 62" using TN1 TN2 p by linarith
    ultimately show ?thesis by (simp only: small)
  qed
  have s_reset2: "sint (tat + ei * cost - now) = T - N + IC"
  proof -
    have "tat + ei * cost - now = word_of_int (T - N + IC)"
      by (subst wT, subst wN, subst wI) simp
    moreover have "\<bar>T - N + IC\<bar> < 2 ^ 62" using TN1 TN2 IC0 ICBO BO61 p by linarith
    ultimately show ?thesis by (simp only: small)
  qed
  have s_retry: "sint (diff * (- 1)) = - D"
  proof -
    have "diff * (- 1) = word_of_int (- D)" by (simp add: wdiff)
    moreover have "\<bar>- D\<bar> < 2 ^ 62" using Db by simp
    ultimately show ?thesis by (simp only: small)
  qed
  have s_retry': "sint (- diff) = - D" using s_retry by simp
  have Dneg: "D < 0" if "sint r < 0"
  proof (rule ccontr)
    assume "\<not> D < 0"
    then have "0 \<le> sint diff" and "sint diff \<le> 2 ^ 63 - 4096"
      using Db p by (simp_all add: sdiff)
    then have "0 \<le> sint r" unfolding r_def using E by (rule roundDiv_nonneg(1))
    then show False using that by simp
  qed
  have r2pos: "0 \<le> sint r2"
    if "sint tat0 - sint now \<le> BO \<or> sint ei < 2 ^ 53 \<and> 2 * (sint tat0 - sint now - BO) < sint ei"
  proof (cases "0 \<le> D2")
    case True
    then have "0 \<le> sint d2" and "sint d2 \<le> 2 ^ 63 - 4096"
      using D2b p by (simp_all add: sd2)
    then show ?thesis unfolding r2_def using E by (rule roundDiv_nonneg(1))
  next
    case False
    then have neg: "D2 < 0" by simp
    have "\<not> sint tat0 - sint now \<le> BO"
      using neg T BO0 by (auto simp: D2_def N_def max_def split: if_splits)
    then have E53: "sint ei < 2 ^ 53" and h: "2 * (sint tat0 - sint now - BO) < sint ei"
      using that by simp_all
    have TT: "T = sint tat0" using neg T BO0 by (auto simp: D2_def N_def max_def split: if_splits)
    have h2: "- sint ei < 2 * D2" using h by (simp add: D2_def TT N_def)
    have "\<bar>D2\<bar> < 2 ^ 52" using h2 neg E53 p by linarith
    then have "sint r2 = exact_round_div D2 (sint ei)"
      unfolding r2_def using roundDiv_exact_sint [of d2 ei impl] E E53 by (simp add: sd2)
    also have "\<dots> = 0" using E h2 neg by (intro exact_round_div_small) simp_all
    finally show ?thesis by simp
  qed
  have step: "ComputeRaw impl tat0 now burst rate period cost =
      (if r <s 0 then (tat, True, r2, diff * (- 1), tat - now)
       else if r = 0 \<and> ei * cost \<le>s 0 then (tat, True, 0, 0, tat - now)
       else (tat + ei * cost, False, r, 0, tat + ei * cost - now))"
    unfolding ComputeRaw_def ei_def [symmetric] Let_def tat_def [symmetric]
    by (simp only: r_def r2_def diff_def d2_def)
  show ?thesis
  proof (cases "r <s 0")
    case True
    then have rn: "sint r < 0" by (simp add: word_sless_alt)
    have eq: "remaining = r2" "retry = diff * (- 1)" "reset = tat - now"
      using res True by (auto simp: step)
    show ?thesis
      using Dneg [OF rn] TN1 r2pos by (simp add: eq s_retry' s_reset1 BO_def)
  next
    case False
    then have rn: "0 \<le> sint r" by (simp add: word_sless_alt)
    show ?thesis
    proof (cases "r = 0 \<and> ei * cost \<le>s 0")
      case True
      then have eq: "remaining = 0" "retry = 0" "reset = tat - now"
        using res False by (auto simp: step)
      show ?thesis using TN1 by (simp add: eq s_reset1)
    next
      case F2: False
      then have eq: "remaining = r" "retry = 0" "reset = tat + ei * cost - now"
        using res False by (auto simp: step)
      show ?thesis using TN1 IC0 rn by (simp add: eq s_reset2)
    qed
  qed
qed

text \<open>
  Claim C7, as stated: every successful \<open>Compute\<close>, for any bucket and any \<open>now\<close> (also one
  earlier than previous calls), reports \<open>Remaining \<ge> 0\<close>, \<open>RetryIn \<ge> 0\<close> and
  \<open>ResetIn \<ge> 0\<close>. \<open>Remaining\<close> can be negative: the bucket generated at 5 s with no
  token left (count 0) has its TAT at 10 s, twice \<open>emissionInterval * Burst\<close> after the
  time 0 s, and a request of cost 1 at 0 s reports \<open>Remaining = - 50\<close>.
\<close>

theorem negative_remaining_counterexample:
  "Generate amd64 5000000000 0 Example_opts = (10000000000, None)
   \<and> Compute amd64 0 10000000000 1 Example_opts =
       (10000000000,
        \<lparr>Limited = True, Remaining = - 50, RetryIn = 5100000000, ResetIn = 10000000000\<rparr>,
        None)
   \<and> (- 50 :: int64) <s 0"
  by code_simp

text \<open>
  Claim C7, amended: for a successful \<open>Compute\<close> with a positive emission interval,
  \<open>emissionInterval * Burst < 2 ^ 61\<close> and a bucket TAT less than \<open>2 ^ 61\<close> ns after \<open>now\<close>
  (or anywhere before it), \<open>RetryIn \<ge> 0\<close> and \<open>ResetIn \<ge> 0\<close>; and \<open>Remaining \<ge> 0\<close>
  provided the TAT is at most \<open>emissionInterval * Burst\<close> after \<open>now\<close>, or, for an
  emission interval below \<open>2 ^ 53\<close>, less than
  \<open>emissionInterval * Burst + emissionInterval / 2\<close> after \<open>now\<close> (an allowed call can
  leave the TAT there: in the witness it is 5.04 s after \<open>now\<close>, with
  \<open>emissionInterval * Burst\<close> = 5 s, and \<open>Remaining\<close> is 0).
\<close>

theorem result_signs:
  fixes impl :: conversion and opts :: Options
  defines "ei \<equiv> roundDiv impl (Period opts) (Rate opts)"
  assumes res: "Compute impl now bucket cost opts = (b', res, None)"
    and E: "0 < sint ei"
    and EB: "sint ei * sint (Burst opts) < 2 ^ 61"
    and TN: "sint bucket - sint now < 2 ^ 61"
  shows "0 \<le>s RetryIn res \<and> 0 \<le>s ResetIn res \<and>
         (sint bucket - sint now \<le> sint ei * sint (Burst opts) \<or>
          sint ei < 2 ^ 53 \<and>
          2 * (sint bucket - sint now - sint ei * sint (Burst opts)) < sint ei
          \<longrightarrow> 0 \<le>s Remaining res)"
proof -
  obtain limited remaining retry reset where
    raw: "ComputeRaw impl bucket now (Burst opts) (Rate opts) (Period opts) cost =
            (b', limited, remaining, retry, reset)"
    and r: "res = \<lparr>Limited = limited, Remaining = remaining, RetryIn = retry, ResetIn = reset\<rparr>"
    and v: "\<not> cost <s 0" "\<not> Burst opts \<le>s 0" "\<not> Burst opts <s cost"
    using res by (auto simp: Compute_def split: if_splits prod.splits)
  have B: "0 < sint (Burst opts)" and C0: "0 \<le> sint cost" and CB: "sint cost \<le> sint (Burst opts)"
    using v by (simp_all add: word_sless_alt word_sle_eq)
  show ?thesis
    using ComputeRaw_signs [OF E [unfolded ei_def] EB [unfolded ei_def] B C0 CB TN raw]
    by (simp add: r word_sle_eq ei_def)
qed

theorem result_signs_witness:
  "Compute amd64 60000000 5100000000 1 Example_opts =
     (5100000000,
      \<lparr>Limited = True, Remaining = 0, RetryIn = 140000000, ResetIn = 5040000000\<rparr>, None)
   \<and> (0 :: int64) \<le>s 140000000 \<and> (0 :: int64) \<le>s 5040000000 \<and> (0 :: int64) \<le>s 0
   \<and> \<not> (5100000000 - 60000000 \<le> (100000000 :: int) * 50)"
proof -
  have c: "Compute amd64 60000000 5100000000 1 Example_opts =
     (5100000000,
      \<lparr>Limited = True, Remaining = 0, RetryIn = 140000000, ResetIn = 5040000000\<rparr>, None)"
    by code_simp
  have ei: "roundDiv amd64 (Period Example_opts) (Rate Example_opts) = 100000000"
    by code_simp
  have h: "0 < sint (roundDiv amd64 (Period Example_opts) (Rate Example_opts))"
    "sint (roundDiv amd64 (Period Example_opts) (Rate Example_opts)) * sint (Burst Example_opts)
       < 2 ^ 61"
    "sint (5100000000 :: int64) - sint (60000000 :: int64) < 2 ^ 61"
    unfolding ei by (simp_all add: Example_opts_def)
  show ?thesis using result_signs [OF c h] c unfolding ei by (simp add: Example_opts_def)
qed

section \<open>Allowed requests never move the TAT backwards\<close>

lemma ComputeRaw_allowed_tat:
  assumes "ComputeRaw impl tat0 now burst rate period cost = (t', False, remaining, retry, reset)"
  shows "t' = (if tat0 <s now then now else tat0) + roundDiv impl period rate * cost"
  using assms by (auto simp: ComputeRaw_def Let_def split: if_splits)

lemma ComputeRaw_allowed_mono:
  fixes impl :: conversion and period rate :: int64
  defines "ei \<equiv> roundDiv impl period rate"
  assumes E0: "0 \<le> sint ei" and C0: "0 \<le> sint cost"
    and nov: "sint (if tat0 <s now then now else tat0) + sint ei * sint cost < 2 ^ 63"
    and res: "ComputeRaw impl tat0 now burst rate period cost =
                (t', False, remaining, retry, reset)"
  shows "tat0 \<le>s t'"
proof -
  define tat where "tat = (if tat0 <s now then now else tat0)"
  have inc: "0 \<le> sint ei * sint cost" using E0 C0 by (rule mult_nonneg_nonneg)
  have t: "t' = tat + ei * cost"
    unfolding tat_def ei_def using res by (rule ComputeRaw_allowed_tat)
  have "tat + ei * cost = word_of_int (sint tat + sint ei * sint cost)" by simp
  moreover have "- (2 ^ 63) \<le> sint tat + sint ei * sint cost"
    using inc sint_bounds_64(1) [of tat] by linarith
  ultimately have st: "sint t' = sint tat + sint ei * sint cost"
    using nov by (simp only: t tat_def [symmetric] sint_word_of_int_64)
  have "sint tat0 \<le> sint tat" by (simp add: tat_def word_sless_alt)
  then show ?thesis using st inc by (simp add: word_sle_eq)
qed

lemma allowed_chain_sorted:
  fixes impl :: conversion and opts :: Options
  defines "ei \<equiv> roundDiv impl (Period opts) (Rate opts)"
  assumes E0: "0 \<le> sint ei"
  shows "chain_in_range ei b calls \<Longrightarrow> allowed_chain impl opts b calls = Some bs \<Longrightarrow>
         sorted_wrt (\<le>s) (b # bs)"
proof (induction calls arbitrary: b bs)
  case Nil
  then show ?case by simp
next
  case (Cons c cs)
  obtain now cost where c: "c = (now, cost)" by (cases c)
  define tat where "tat = (if b <s now then now else b)"
  from Cons.prems(2) obtain b' res bs' where
    cmp: "Compute impl now b cost opts = (b', res, None)" and nl: "\<not> Limited res"
    and rest: "allowed_chain impl opts b' cs = Some bs'" and bs: "bs = b' # bs'"
    by (auto simp: c split: option.splits if_splits prod.splits)
  from cmp nl obtain remaining retry reset where
    raw: "ComputeRaw impl b now (Burst opts) (Rate opts) (Period opts) cost =
            (b', False, remaining, retry, reset)"
    and v: "\<not> cost <s 0"
    by (auto simp: Compute_def split: if_splits prod.splits)
  have C0: "0 \<le> sint cost" using v by (simp add: word_sless_alt)
  have nov: "sint (if b <s now then now else b) + sint ei * sint cost < 2 ^ 63"
    and rng: "chain_in_range ei (tat + ei * cost) cs"
    using Cons.prems(1) by (simp_all add: c tat_def Let_def)
  have b': "b' = tat + ei * cost"
    unfolding tat_def ei_def using raw by (rule ComputeRaw_allowed_tat)
  have le: "b \<le>s b'"
    using ComputeRaw_allowed_mono [OF E0 [unfolded ei_def] C0 nov [unfolded ei_def] raw] .
  have IH: "sorted_wrt (\<le>s) (b' # bs')"
    using Cons.IH [of b' bs'] rng rest by (simp add: b')
  have "b \<le>s x" if "x \<in> set bs'" for x
  proof -
    have "b' \<le>s x" using IH that by simp
    then show ?thesis using le by (simp add: word_sle_eq)
  qed
  then show ?case using le IH by (simp add: bs)
qed

text \<open>
  Claim C8, as stated: for valid parameters and \<open>cost > 0\<close>, an allowed \<open>ComputeRaw\<close>
  returns a TAT not smaller than the input TAT. Where \<open>tat + increment\<close> wraps around it
  is smaller: on the TAT \<open>2 ^ 63 - 1\<close> with emission interval 1 and burst \<open>2 ^ 63 - 1\<close>, a
  request of cost 1 at \<open>now = 1\<close> is allowed and returns the TAT \<open>- 2 ^ 63\<close>. And with
  period \<open>2 ^ 63 - 1\<close> and rate 1 the \<open>float64\<close> quotient is \<open>2 ^ 63\<close>, which is not an
  \<open>int64\<close>: on amd64 the emission interval is \<open>- 2 ^ 63\<close>, and an allowed request of
  cost 1 moves the TAT from \<open>2 ^ 62\<close> to \<open>- 2 ^ 62\<close>.
\<close>

theorem allowed_tat_wraps_counterexample:
  "(0 :: int64) <s 9223372036854775807 \<and> (0 :: int64) <s 1
   \<and> (1 :: int64) \<le>s 9223372036854775807
   \<and> ComputeRaw amd64 9223372036854775807 1 9223372036854775807 1 1 1 =
       (- 9223372036854775808, False, 0, 0, 9223372036854775807)
   \<and> \<not> (9223372036854775807 :: int64) \<le>s - 9223372036854775808
   \<and> roundDiv amd64 9223372036854775807 1 = - 9223372036854775808
   \<and> ComputeRaw amd64 4611686018427387904 0 1 1 9223372036854775807 1 =
       (- 4611686018427387904, False, 1, 0, - 4611686018427387904)
   \<and> \<not> (4611686018427387904 :: int64) \<le>s - 4611686018427387904"
  by code_simp

text \<open>
  Claim C8, amended: if the emission interval \<open>roundDiv(period, rate)\<close> is not negative
  (as it is whenever the \<open>float64\<close> quotient is below \<open>2 ^ 63\<close>), the cost is not
  negative and the new TAT \<open>max tat now + emissionInterval * cost\<close> is below \<open>2 ^ 63\<close>, an
  allowed \<open>ComputeRaw\<close> returns a TAT not smaller than the input TAT; and along a chain
  of allowed \<open>Compute\<close> calls, each on the bucket the previous one returned, with such an
  emission interval and in which no new TAT reaches \<open>2 ^ 63\<close>, the stored TATs are
  non-decreasing.
\<close>

theorem allowed_tat_monotone:
  "(0 \<le> sint (roundDiv impl period rate) \<longrightarrow> 0 \<le> sint cost \<longrightarrow>
      sint (if tat0 <s now then now else tat0) + sint (roundDiv impl period rate) * sint cost
        < 2 ^ 63 \<longrightarrow>
      ComputeRaw impl tat0 now burst rate period cost = (t', False, remaining, retry, reset) \<longrightarrow>
      tat0 \<le>s t')
   \<and> (0 \<le> sint (roundDiv impl (Period opts) (Rate opts)) \<longrightarrow>
      chain_in_range (roundDiv impl (Period opts) (Rate opts)) b calls \<longrightarrow>
      allowed_chain impl opts b calls = Some bs \<longrightarrow> sorted_wrt (\<le>s) (b # bs))"
proof (intro conjI impI)
  assume "0 \<le> sint (roundDiv impl period rate)" and "0 \<le> sint cost"
    and "sint (if tat0 <s now then now else tat0) + sint (roundDiv impl period rate) * sint cost
        < 2 ^ 63"
    and "ComputeRaw impl tat0 now burst rate period cost = (t', False, remaining, retry, reset)"
  then show "tat0 \<le>s t'" by (rule ComputeRaw_allowed_mono)
next
  assume "0 \<le> sint (roundDiv impl (Period opts) (Rate opts))"
    and "chain_in_range (roundDiv impl (Period opts) (Rate opts)) b calls"
    and "allowed_chain impl opts b calls = Some bs"
  then show "sorted_wrt (\<le>s) (b # bs)" by (rule allowed_chain_sorted)
qed

theorem allowed_tat_monotone_witness:
  "ComputeRaw amd64 0 5 4 10 10000000000 1 = (1000000005, False, 3, 0, 1000000000)
   \<and> (0 :: int64) \<le>s 1000000005
   \<and> allowed_chain amd64 \<lparr>Burst = 4, Rate = 10, Period = 10 * Second\<rparr> 0
         [(0, 1), (0, 1), (2000000000, 2)] = Some [1000000000, 2000000000, 4000000000]
   \<and> sorted_wrt (\<le>s) [0 :: int64, 1000000000, 2000000000, 4000000000]"
proof -
  define opts where "opts = \<lparr>Burst = 4, Rate = 10, Period = 10 * Second\<rparr>"
  have ei: "roundDiv amd64 10000000000 10 = 1000000000" by code_simp
  have ei': "roundDiv amd64 (Period opts) (Rate opts) = 1000000000"
    unfolding opts_def by code_simp
  have raw: "ComputeRaw amd64 0 5 4 10 10000000000 1 = (1000000005, False, 3, 0, 1000000000)"
    by code_simp
  have h: "0 \<le> sint (1000000000 :: int64)" "0 \<le> sint (1 :: int64)"
    "sint (if (0 :: int64) <s 5 then (5 :: int64) else 0) + sint (1000000000 :: int64) * sint (1 :: int64) < 2 ^ 63"
    by (simp_all add: word_sless_alt)
  have rng: "chain_in_range 1000000000 0 [(0, 1), (0, 1), (2000000000, 2)]"
    by (simp add: Let_def word_sless_alt)
  have ch: "allowed_chain amd64 opts 0 [(0, 1), (0, 1), (2000000000, 2)] =
      Some [1000000000, 2000000000, 4000000000]"
    unfolding opts_def by code_simp
  have a: "(0 :: int64) \<le>s 1000000005"
    using allowed_tat_monotone [where impl = amd64 and period = 10000000000 and rate = 10
        and cost = 1 and ?tat0.0 = 0 and now = 5 and burst = 4 and t' = 1000000005
        and remaining = 3 and retry = 0 and reset = 1000000000] raw h
    by (simp add: ei)
  have b: "sorted_wrt (\<le>s) [0 :: int64, 1000000000, 2000000000, 4000000000]"
    using allowed_tat_monotone [where impl = amd64 and opts = opts and b = 0
        and calls = "[(0, 1), (0, 1), (2000000000, 2)]"
        and bs = "[1000000000, 2000000000, 4000000000]"] rng ch
    by (simp add: ei')
  show ?thesis using raw a b ch by (simp add: opts_def)
qed

section \<open>The documented scenarios\<close>

lemma no_wrap_ahead:
  assumes "0 \<le> sint d" and "sint now + sint d < 2 ^ 63"
  shows "\<not> (now + d <s (now :: int64))"
proof -
  have "- (2 ^ 63) \<le> sint now + sint d" using assms(1) sint_bounds_64(1) [of now] by linarith
  then have "sint (now + d) = sint now + sint d" using assms(2) by (rule sint_add_64)
  then show ?thesis using assms(1) by (simp add: word_sless_alt)
qed

lemma ComputeRaw_ahead:
  fixes impl :: conversion and period rate :: int64
  defines "ei \<equiv> roundDiv impl period rate"
  assumes ahead: "\<not> (now + d <s now)"
  shows "ComputeRaw impl (now + d) now burst rate period cost =
     (if roundDiv impl (ei * burst - ei * cost - d) ei <s 0 then
        (now + d, True, roundDiv impl (ei * burst - d) ei, ei * cost + d - ei * burst, d)
      else if roundDiv impl (ei * burst - ei * cost - d) ei = 0 \<and> ei * cost \<le>s 0
           then (now + d, True, 0, 0, d)
           else (now + d + ei * cost, False,
                 roundDiv impl (ei * burst - ei * cost - d) ei, 0, d + ei * cost))"
proof -
  have a: "now - (now + d + ei * cost - ei * burst) = ei * burst - ei * cost - d"
    by (simp add: algebra_simps)
  have b: "now - (now + d - ei * burst) = ei * burst - d" by (simp add: algebra_simps)
  have c: "(ei * burst - ei * cost - d) * (- 1) = ei * cost + d - ei * burst"
    by (simp add: algebra_simps)
  have d: "now + d - now = d" "now + d + ei * cost - now = d + ei * cost"
    by (simp_all add: algebra_simps)
  show ?thesis
    unfolding ComputeRaw_def ei_def [symmetric] Let_def using ahead
    by (simp only: if_False a b c d)
qed

lemma roundDiv_numeral:
  assumes "sint a = A" and "sint b = B" and "\<bar>A\<bar> < 2 ^ 52" and "0 < B" and "B < 2 ^ 53"
    and "exact_round_div A B = R"
  shows "roundDiv impl a b = word_of_int R"
  using roundDiv_exact [of a b impl] assms by simp

lemma Example_exact_round_div:
  "exact_round_div 1000000000 10 = 100000000"
  "exact_round_div 1500000000 100000000 = 15"
  "exact_round_div (- 1500000000) 100000000 = - 15"
  "exact_round_div 0 100000000 = 0"
  "exact_round_div 2000000000 100000000 = 20"
  "exact_round_div 7500000000 100000000 = 75"
  by code_simp+

lemma Example_roundDiv:
  "roundDiv impl 1000000000 10 = 100000000"
  "roundDiv impl 1500000000 100000000 = 15"
  "roundDiv impl (- 1500000000) 100000000 = - 15"
  "roundDiv impl 0 100000000 = 0"
  "roundDiv impl 2000000000 100000000 = 20"
  "roundDiv impl 7500000000 100000000 = 75"
proof -
  show "roundDiv impl 1000000000 10 = 100000000"
    using roundDiv_numeral [of 1000000000 1000000000 10 10 100000000 impl]
    by (simp add: Example_exact_round_div)
  show "roundDiv impl 1500000000 100000000 = 15"
    using roundDiv_numeral [of 1500000000 1500000000 100000000 100000000 15 impl]
    by (simp add: Example_exact_round_div)
  show "roundDiv impl (- 1500000000) 100000000 = - 15"
    using roundDiv_numeral [of "- 1500000000" "- 1500000000" 100000000 100000000 "- 15" impl]
    by (simp add: Example_exact_round_div)
  show "roundDiv impl 0 100000000 = 0"
    using roundDiv_numeral [of 0 0 100000000 100000000 0 impl]
    by (simp add: Example_exact_round_div)
  show "roundDiv impl 2000000000 100000000 = 20"
    using roundDiv_numeral [of 2000000000 2000000000 100000000 100000000 20 impl]
    by (simp add: Example_exact_round_div)
  show "roundDiv impl 7500000000 100000000 = 75"
    using roundDiv_numeral [of 7500000000 7500000000 100000000 100000000 75 impl]
    by (simp add: Example_exact_round_div)
qed

text \<open>
  Claim C1, as stated: for the options of the package example and the bucket of
  \<open>Generate(now, 25, opts)\<close>, the four \<open>Compute\<close> calls give the documented results, at
  whatever instant \<open>now\<close>. At the last instant \<open>UnixNano()\<close> can represent,
  \<open>now = 2 ^ 63 - 1\<close>, the TAT \<open>now + 2.5 s\<close> wraps around to a negative value, the bucket
  counts as fully replenished, and the first call reports \<open>Remaining = 40\<close>, not 15.
\<close>

theorem example_wraps_counterexample:
  "Generate amd64 9223372036854775807 25 Example_opts = (- 9223372034354775809, None)
   \<and> Compute amd64 9223372036854775807 (- 9223372034354775809) 10 Example_opts =
       (- 9223372035854775809,
        \<lparr>Limited = False, Remaining = 40, RetryIn = 0, ResetIn = 1000000000\<rparr>, None)
   \<and> (40 :: int64) \<noteq> 15"
  by code_simp

text \<open>
  Claim C1, amended: for every \<open>now\<close> at least 5 s before the end of the \<open>int64\<close>
  nanosecond range (\<open>now.UnixNano() < 2 ^ 63 - 5000000000\<close>), the bucket of
  \<open>Generate(now, 25, opts)\<close> and the four \<open>Compute\<close> calls, each on the bucket the
  previous one returned, give exactly the documented results.
\<close>

theorem example_scenario:
  assumes now: "sint now < 2 ^ 63 - 5000000000"
  shows "Generate impl now 25 Example_opts = (now + 2500000000, None)
   \<and> Compute impl now (now + 2500000000) 10 Example_opts =
       (now + 3500000000,
        \<lparr>Limited = False, Remaining = 15, RetryIn = 0, ResetIn = 3500 * Millisecond\<rparr>, None)
   \<and> Compute impl now (now + 3500000000) 30 Example_opts =
       (now + 3500000000,
        \<lparr>Limited = True, Remaining = 15, RetryIn = 1500 * Millisecond,
         ResetIn = 3500 * Millisecond\<rparr>, None)
   \<and> Compute impl now (now + 3500000000) 15 Example_opts =
       (now + 5000000000,
        \<lparr>Limited = False, Remaining = 0, RetryIn = 0, ResetIn = 5 * Second\<rparr>, None)
   \<and> Compute impl (now + 2 * Second) (now + 5000000000) 0 Example_opts =
       (now + 5000000000,
        \<lparr>Limited = False, Remaining = 20, RetryIn = 0, ResetIn = 3 * Second\<rparr>, None)"
proof -
  have v: "\<not> (25 :: int64) <s 0" "\<not> (10 :: int64) <s 0" "\<not> (30 :: int64) <s 0"
    "\<not> (15 :: int64) <s 0" "\<not> (0 :: int64) <s 0" "\<not> (50 :: int64) \<le>s 0"
    "\<not> (10 :: int64) \<le>s 0" "\<not> (1000000000 :: int64) \<le>s 0"
    "\<not> (50 :: int64) <s 25" "\<not> (50 :: int64) <s 10" "\<not> (50 :: int64) <s 30"
    "\<not> (50 :: int64) <s 15" "\<not> (50 :: int64) <s 0"
    "(- 15 :: int64) <s 0" "\<not> (15 :: int64) <s 0" "\<not> (20 :: int64) <s 0"
    "\<not> (1500000000 :: int64) \<le>s 0"
    by (simp_all add: word_sless_alt word_sle_eq)
  have a1: "\<not> (now + 2500000000 <s now)" using now by (intro no_wrap_ahead) simp_all
  have a2: "\<not> (now + 3500000000 <s now)" using now by (intro no_wrap_ahead) simp_all
  have s2: "sint (now + 2000000000) = sint now + 2000000000"
    using now sint_bounds_64(1) [of now] by (subst sint_add_64) simp_all
  have a3: "\<not> (now + 2000000000 + 3000000000 <s now + 2000000000)"
    using now by (intro no_wrap_ahead) (simp_all add: s2)
  have e: "now + 5000000000 = now + 2000000000 + 3000000000" by simp
  have g: "Generate impl now 25 Example_opts = (now + 2500000000, None)"
    using v by (simp add: Generate_def GenerateRaw_def Example_opts_def Second_def
        Example_roundDiv)
  have c1: "ComputeRaw impl (now + 2500000000) now 50 10 1000000000 10 =
      (now + 3500000000, False, 15, 0, 3500000000)"
    using v by (simp add: ComputeRaw_ahead [OF a1] Example_roundDiv)
  have c2: "ComputeRaw impl (now + 3500000000) now 50 10 1000000000 30 =
      (now + 3500000000, True, 15, 1500000000, 3500000000)"
    using v by (simp add: ComputeRaw_ahead [OF a2] Example_roundDiv)
  have c3: "ComputeRaw impl (now + 3500000000) now 50 10 1000000000 15 =
      (now + 5000000000, False, 0, 0, 5000000000)"
    using v by (simp add: ComputeRaw_ahead [OF a2] Example_roundDiv)
  have c4g: "ComputeRaw impl (n + 3000000000) n 50 10 1000000000 0 =
      (n + 3000000000, False, 20, 0, 3000000000)" if "\<not> (n + 3000000000 <s n)" for n
    using v by (simp add: ComputeRaw_ahead [OF that] Example_roundDiv)
  have c4: "ComputeRaw impl (now + 5000000000) (now + 2000000000) 50 10 1000000000 0 =
      (now + 5000000000, False, 20, 0, 3000000000)"
    using c4g [OF a3] by (simp only: e [symmetric])
  show ?thesis
    using v g c1 c2 c3 c4
    by (simp add: Compute_def Example_opts_def Second_def Millisecond_def)
qed

theorem example_scenario_witness:
  "Generate amd64 0 25 Example_opts = (2500000000, None)
   \<and> Compute amd64 0 2500000000 10 Example_opts =
       (3500000000,
        \<lparr>Limited = False, Remaining = 15, RetryIn = 0, ResetIn = 3500000000\<rparr>, None)
   \<and> Compute amd64 0 3500000000 30 Example_opts =
       (3500000000,
        \<lparr>Limited = True, Remaining = 15, RetryIn = 1500000000, ResetIn = 3500000000\<rparr>, None)
   \<and> Compute amd64 0 3500000000 15 Example_opts =
       (5000000000,
        \<lparr>Limited = False, Remaining = 0, RetryIn = 0, ResetIn = 5000000000\<rparr>, None)
   \<and> Compute amd64 2000000000 5000000000 0 Example_opts =
       (5000000000,
        \<lparr>Limited = False, Remaining = 20, RetryIn = 0, ResetIn = 3000000000\<rparr>, None)"
proof -
  have h: "sint (0 :: int64) < 2 ^ 63 - 5000000000" by simp
  show ?thesis
    using example_scenario [OF h, of amd64] by (simp add: Second_def Millisecond_def)
qed

text \<open>
  Claim C6, as stated: \<open>GenerateRaw\<close> returns \<open>now + emissionInterval * (burst - count)\<close>,
  and \<open>Generate(now, 75, {100, 10, 1s})\<close> followed by a zero-cost \<open>Compute\<close> at the same
  \<open>now\<close> reports \<open>Remaining = 75\<close> and \<open>ResetIn = 2.5 s\<close>. The first part holds; the
  second fails where \<open>now + 2.5 s\<close> wraps around: at \<open>now = 2 ^ 63 - 1\<close> the query reports
  \<open>Remaining = 100\<close> and \<open>ResetIn = 0\<close>.
\<close>

theorem seeding_wraps_counterexample:
  "Generate amd64 9223372036854775807 75 TestGenerate_opts = (- 9223372034354775809, None)
   \<and> Compute amd64 9223372036854775807 (- 9223372034354775809) 0 TestGenerate_opts =
       (9223372036854775807,
        \<lparr>Limited = False, Remaining = 100, RetryIn = 0, ResetIn = 0\<rparr>, None)
   \<and> (100 :: int64) \<noteq> 75 \<and> (0 :: int64) \<noteq> 2500 * Millisecond"
  by code_simp

text \<open>
  Claim C6, amended: \<open>GenerateRaw\<close> returns \<open>now + emissionInterval * (burst - count)\<close>
  in \<open>int64\<close> arithmetic, with \<open>emissionInterval = roundDiv(period, rate)\<close>, for all
  arguments; and for every \<open>now\<close> with \<open>now.UnixNano() < 2 ^ 63 - 2500000000\<close>,
  \<open>Generate(now, 75, {100, 10, 1s})\<close> followed by \<open>Compute(now, bucket, 0, opts)\<close> reports
  \<open>Remaining = 75\<close> and \<open>ResetIn = 2.5 s = emissionInterval * (Burst - count)\<close>.
\<close>

theorem seeding:
  "GenerateRaw impl now count burst rate period =
     now + roundDiv impl period rate * (burst - count)
   \<and> (sint now' < 2 ^ 63 - 2500000000 \<longrightarrow>
        Generate impl now' 75 TestGenerate_opts = (now' + 2500000000, None)
        \<and> Compute impl now' (now' + 2500000000) 0 TestGenerate_opts =
            (now' + 2500000000,
             \<lparr>Limited = False, Remaining = 75, RetryIn = 0, ResetIn = 2500 * Millisecond\<rparr>,
             None)
        \<and> roundDiv impl (Period TestGenerate_opts) (Rate TestGenerate_opts) = 100000000
        \<and> 2500 * Millisecond = 100000000 * (Burst TestGenerate_opts - 75))"
proof (intro conjI impI)
  show "GenerateRaw impl now count burst rate period =
     now + roundDiv impl period rate * (burst - count)"
    by (simp add: GenerateRaw_def)
next
  assume now: "sint now' < 2 ^ 63 - 2500000000"
  have v: "\<not> (75 :: int64) <s 0" "\<not> (0 :: int64) <s 0" "\<not> (100 :: int64) \<le>s 0"
    "\<not> (10 :: int64) \<le>s 0" "\<not> (1000000000 :: int64) \<le>s 0"
    "\<not> (100 :: int64) <s 75" "\<not> (100 :: int64) <s 0" "\<not> (75 :: int64) <s 0"
    by (simp_all add: word_sless_alt word_sle_eq)
  have a1: "\<not> (now' + 2500000000 <s now')" using now by (intro no_wrap_ahead) simp_all
  show "Generate impl now' 75 TestGenerate_opts = (now' + 2500000000, None)"
    using v by (simp add: Generate_def GenerateRaw_def TestGenerate_opts_def Second_def
        Example_roundDiv)
  have c: "ComputeRaw impl (now' + 2500000000) now' 100 10 1000000000 0 =
      (now' + 2500000000, False, 75, 0, 2500000000)"
    using v by (simp add: ComputeRaw_ahead [OF a1] Example_roundDiv)
  show "Compute impl now' (now' + 2500000000) 0 TestGenerate_opts =
            (now' + 2500000000,
             \<lparr>Limited = False, Remaining = 75, RetryIn = 0, ResetIn = 2500 * Millisecond\<rparr>,
             None)"
    using v c by (simp add: Compute_def TestGenerate_opts_def Second_def Millisecond_def)
  show "roundDiv impl (Period TestGenerate_opts) (Rate TestGenerate_opts) = 100000000"
    by (simp add: TestGenerate_opts_def Second_def Example_roundDiv)
  show "2500 * Millisecond = 100000000 * (Burst TestGenerate_opts - 75)"
    by (simp add: TestGenerate_opts_def Millisecond_def)
qed

theorem seeding_witness:
  "Generate amd64 0 75 TestGenerate_opts = (2500000000, None)
   \<and> Compute amd64 0 2500000000 0 TestGenerate_opts =
       (2500000000,
        \<lparr>Limited = False, Remaining = 75, RetryIn = 0, ResetIn = 2500000000\<rparr>, None)"
proof -
  have h: "sint (0 :: int64) < 2 ^ 63 - 2500000000" by simp
  show ?thesis
    using seeding [where now' = 0 and impl = amd64] h by (simp add: Millisecond_def)
qed

section \<open>An emission interval of zero\<close>

text \<open>
  Claim C9: under valid parameters no divisor passed to \<open>roundDiv\<close> is zero, the
  emission interval being strictly positive. The options \<open>{Burst: 1, Rate: 10, Period: 1}\<close>
  pass the validation of \<open>Compute\<close>, but \<open>roundDiv(1, 10)\<close> is \<open>int64(math.Round(0.1)) = 0\<close>
  on every platform: the emission interval is 0, and \<open>ComputeRaw\<close> then computes
  \<open>roundDiv(0, 0)\<close>, the \<open>float64\<close> quotient \<open>0 / 0 = NaN\<close>, whose conversion to \<open>int64\<close>
  the language leaves to the implementation. On amd64 it is \<open>- 2 ^ 63\<close>, and the call is
  denied with that number as \<open>Remaining\<close>. The theorem evaluates the code at that input.
\<close>

theorem zero_emission_interval:
  "(0 :: int64) <s 1 \<and> (0 :: int64) <s 10 \<and> (0 :: int64) \<le>s 1 \<and> (1 :: int64) \<le>s 1
   \<and> roundDiv impl 1 10 = 0
   \<and> float64_div (float64_of_int64 0) (float64_of_int64 0) = NaN
   \<and> roundDiv impl 0 0 = impl NaN
   \<and> ComputeRaw amd64 0 0 1 10 1 1 = (0, True, - 9223372036854775808, 0, 0)
   \<and> Compute amd64 0 0 1 \<lparr>Burst = 1, Rate = 10, Period = 1\<rparr> =
       (0, \<lparr>Limited = True, Remaining = - 9223372036854775808, RetryIn = 0, ResetIn = 0\<rparr>,
        None)"
proof -
  have e: "exact_round_div 1 10 = 0" by code_simp
  have a: "roundDiv impl 1 10 = 0"
    using roundDiv_numeral [of 1 1 10 10 0 impl] e by simp
  have n: "float64_div (float64_of_int64 0) (float64_of_int64 0) = NaN" by code_simp
  have b: "roundDiv impl 0 0 = impl NaN" by (simp add: roundDiv_def n)
  have c: "(0 :: int64) <s 1 \<and> (0 :: int64) <s 10 \<and> (0 :: int64) \<le>s 1 \<and> (1 :: int64) \<le>s 1
    \<and> ComputeRaw amd64 0 0 1 10 1 1 = (0, True, - 9223372036854775808, 0, 0)
    \<and> Compute amd64 0 0 1 \<lparr>Burst = 1, Rate = 10, Period = 1\<rparr> =
       (0, \<lparr>Limited = True, Remaining = - 9223372036854775808, RetryIn = 0, ResetIn = 0\<rparr>,
        None)"
    by code_simp
  show ?thesis using a n b c by simp
qed

end
